theory Spec2Isabelle
  imports Main "HOL-Library.Word"
begin

unbundle bit_operations_syntax

section \<open>Status codes, bytes and host memory\<close>

text \<open>
  The status codes of the library. Their numeric values live in \<open>api.h\<close>; only their
  being pairwise distinct matters here, so they are the constructors of a datatype.
\<close>

datatype fds_status =
  FDS_OK | FDS_ERR_TRUNC | FDS_ERR_ARG | FDS_ERR_BUFFER | FDS_ERR_FORMAT | FDS_ERR_NOMEM

type_synonym byte = "8 word"

text \<open>
  \<open>converters.h\<close> compiles on little-endian and on big-endian hosts only. A typed store
  \<open>*(uintN_t *) p = w\<close> lays the bytes of \<open>w\<close> out in host order, a typed load reads
  them back, and \<open>htobe64\<close>, \<open>htonl\<close>, \<open>htons\<close> and their inverses swap bytes on a
  little-endian host and do nothing on a big-endian one.
\<close>

datatype byte_order = LittleEndian | BigEndian

definition le_bytes :: "nat \<Rightarrow> 'a::len word \<Rightarrow> byte list" where
  "le_bytes n w = map (\<lambda>i. ucast (drop_bit (8 * i) w)) [0..<n]"

fun le_word :: "byte list \<Rightarrow> 'a::len word" where
  "le_word [] = 0"
| "le_word (b # bs) = ucast b OR push_bit 8 (le_word bs)"

definition store_host :: "byte_order \<Rightarrow> nat \<Rightarrow> 'a::len word \<Rightarrow> byte list" where
  "store_host h n w = (case h of LittleEndian \<Rightarrow> le_bytes n w | BigEndian \<Rightarrow> rev (le_bytes n w))"

definition load_host :: "byte_order \<Rightarrow> byte list \<Rightarrow> 'a::len word" where
  "load_host h bs = (case h of LittleEndian \<Rightarrow> le_word bs | BigEndian \<Rightarrow> le_word (rev bs))"

definition bswap :: "nat \<Rightarrow> 'a::len word \<Rightarrow> 'a word" where
  "bswap n w = le_word (rev (le_bytes n w))"

definition htobe64 :: "byte_order \<Rightarrow> 64 word \<Rightarrow> 64 word" where
  "htobe64 h w = (case h of LittleEndian \<Rightarrow> bswap 8 w | BigEndian \<Rightarrow> w)"

definition be64toh :: "byte_order \<Rightarrow> 64 word \<Rightarrow> 64 word" where
  "be64toh h w = (case h of LittleEndian \<Rightarrow> bswap 8 w | BigEndian \<Rightarrow> w)"

definition htonl :: "byte_order \<Rightarrow> 32 word \<Rightarrow> 32 word" where
  "htonl h w = (case h of LittleEndian \<Rightarrow> bswap 4 w | BigEndian \<Rightarrow> w)"

definition ntohl :: "byte_order \<Rightarrow> 32 word \<Rightarrow> 32 word" where
  "ntohl h w = (case h of LittleEndian \<Rightarrow> bswap 4 w | BigEndian \<Rightarrow> w)"

definition htons :: "byte_order \<Rightarrow> 16 word \<Rightarrow> 16 word" where
  "htons h w = (case h of LittleEndian \<Rightarrow> bswap 2 w | BigEndian \<Rightarrow> w)"

definition ntohs :: "byte_order \<Rightarrow> 16 word \<Rightarrow> 16 word" where
  "ntohs h w = (case h of LittleEndian \<Rightarrow> bswap 2 w | BigEndian \<Rightarrow> w)"

text \<open>
  \<open>memcpy(field, src, n)\<close>: the first \<open>n\<close> bytes of the region at \<open>field\<close> are replaced
  by \<open>src\<close>, the rest keeps its value. The caller owns at least \<open>n\<close> bytes there.
\<close>

definition memcpy :: "byte list \<Rightarrow> byte list \<Rightarrow> byte list" where
  "memcpy field src = src @ drop (length src) field"

text \<open>\<open>memcpy(&mem[off], src, n)\<close>, for a region that holds at least \<open>off + n\<close> bytes.\<close>

definition memcpy_at :: "byte list \<Rightarrow> nat \<Rightarrow> byte list \<Rightarrow> byte list" where
  "memcpy_at mem off src = take off mem @ src @ drop (off + length src) mem"

section \<open>Integer codec (converters.h)\<close>

text \<open>
  \<open>fds_set_uint_be(field, size, value)\<close>: the result is the status and the memory at
  \<open>field\<close> after the call.
\<close>

definition fds_set_uint_be :: "byte_order \<Rightarrow> byte list \<Rightarrow> nat \<Rightarrow> 64 word \<Rightarrow> fds_status \<times> byte list" where
  "fds_set_uint_be h field sz value =
    (if sz = 8 then (FDS_OK, memcpy field (store_host h 8 (htobe64 h value)))
     else if sz = 4 then
       (if value > 0xFFFFFFFF
        then (FDS_ERR_TRUNC, memcpy field (store_host h 4 (0xFFFFFFFF :: 32 word)))
        else (FDS_OK, memcpy field (store_host h 4 (htonl h (ucast value)))))
     else if sz = 2 then
       (if value > 0xFFFF
        then (FDS_ERR_TRUNC, memcpy field (store_host h 2 (0xFFFF :: 16 word)))
        else (FDS_OK, memcpy field (store_host h 2 (htons h (ucast value)))))
     else if sz = 1 then
       (if value > 0xFF
        then (FDS_ERR_TRUNC, memcpy field (store_host h 1 (0xFF :: 8 word)))
        else (FDS_OK, memcpy field (store_host h 1 (ucast value :: 8 word))))
     else if sz = 0 \<or> sz > 8 then (FDS_ERR_ARG, field)
     else
       (let over_limit = push_bit (sz * 8) (1 :: 64 word) in
        if value \<ge> over_limit
        then (FDS_ERR_TRUNC,
              memcpy field (take sz (store_host h 8 (0xFFFFFFFFFFFFFFFF :: 64 word))))
        else (FDS_OK,
              memcpy field (take sz (drop (8 - sz) (store_host h 8 (htobe64 h value)))))))"

text \<open>
  \<open>fds_set_int_be(field, size, value)\<close>: \<open>value\<close> is an \<open>int64_t\<close>, compared as a
  signed number (\<open><s\<close>).
\<close>

definition fds_set_int_be :: "byte_order \<Rightarrow> byte list \<Rightarrow> nat \<Rightarrow> 64 word \<Rightarrow> fds_status \<times> byte list" where
  "fds_set_int_be h field sz value =
    (if sz = 8 then (FDS_OK, memcpy field (store_host h 8 (htobe64 h value)))
     else if sz = 4 then
       (if 0x7FFFFFFF <s value
        then (FDS_ERR_TRUNC, memcpy field (store_host h 4 (htonl h 0x7FFFFFFF)))
        else if value <s - 0x80000000
        then (FDS_ERR_TRUNC, memcpy field (store_host h 4 (htonl h 0x80000000)))
        else (FDS_OK, memcpy field (store_host h 4 (htonl h (ucast value)))))
     else if sz = 2 then
       (if 0x7FFF <s value
        then (FDS_ERR_TRUNC, memcpy field (store_host h 2 (htons h 0x7FFF)))
        else if value <s - 0x8000
        then (FDS_ERR_TRUNC, memcpy field (store_host h 2 (htons h 0x8000)))
        else (FDS_OK, memcpy field (store_host h 2 (htons h (ucast value)))))
     else if sz = 1 then
       (if 0x7F <s value
        then (FDS_ERR_TRUNC, memcpy field (store_host h 1 (0x7F :: 8 word)))
        else if value <s - 0x80
        then (FDS_ERR_TRUNC, memcpy field (store_host h 1 (0x80 :: 8 word)))
        else (FDS_OK, memcpy field (store_host h 1 (ucast value :: 8 word))))
     else if sz = 0 \<or> sz > 8 then (FDS_ERR_ARG, field)
     else
       (let over_limit = signed_drop_bit ((8 - sz) * 8) (0x7FFFFFFFFFFFFFFF :: 64 word);
            over = (over_limit <s value \<or> value <s NOT over_limit);
            value' = (if over_limit <s value then htobe64 h over_limit
                      else if value <s NOT over_limit then htobe64 h (NOT over_limit)
                      else htobe64 h value)
        in ((if over then FDS_ERR_TRUNC else FDS_OK),
            memcpy field (take sz (drop (8 - sz) (store_host h 8 value'))))))"

text \<open>
  \<open>fds_get_uint_be(field, size, value)\<close>: the result is the status and the contents of
  \<open>*value\<close> after the call; the argument \<open>value\<close> is what \<open>*value\<close> held before.
\<close>

definition fds_get_uint_be :: "byte_order \<Rightarrow> byte list \<Rightarrow> nat \<Rightarrow> 64 word \<Rightarrow> fds_status \<times> 64 word" where
  "fds_get_uint_be h field sz value =
    (if sz = 8 then (FDS_OK, be64toh h (load_host h (take 8 field)))
     else if sz = 4 then (FDS_OK, ucast (ntohl h (load_host h (take 4 field))))
     else if sz = 2 then (FDS_OK, ucast (ntohs h (load_host h (take 2 field))))
     else if sz = 1 then (FDS_OK, ucast (load_host h (take 1 field) :: 8 word))
     else if sz = 0 \<or> sz > 8 then (FDS_ERR_ARG, value)
     else
       (let new_value = (0 :: 64 word);
            mem = take (8 - sz) (store_host h 8 new_value) @ take sz field
        in (FDS_OK, be64toh h (load_host h mem))))"

definition fds_get_int_be :: "byte_order \<Rightarrow> byte list \<Rightarrow> nat \<Rightarrow> 64 word \<Rightarrow> fds_status \<times> 64 word" where
  "fds_get_int_be h field sz value =
    (if sz = 8 then (FDS_OK, be64toh h (load_host h (take 8 field)))
     else if sz = 4 then (FDS_OK, scast (ntohl h (load_host h (take 4 field))))
     else if sz = 2 then (FDS_OK, scast (ntohs h (load_host h (take 2 field))))
     else if sz = 1 then (FDS_OK, scast (load_host h (take 1 field) :: 8 word))
     else if sz = 0 \<or> sz > 8 then (FDS_ERR_ARG, value)
     else
       (let new_value = (if (field ! 0) AND 0x80 \<noteq> 0 then - 1 else 0 :: 64 word);
            mem = take (8 - sz) (store_host h 8 new_value) @ take sz field
        in (FDS_OK, be64toh h (load_host h mem))))"


section \<open>Element type tags\<close>

text \<open>
  Modelled from the spec: \<open>enum fds_iemgr_element_type\<close> is declared in \<open>iemgr.h\<close>, which
  is not among the sources. A tag is the numeric value of the enumerator; the values are
  the positions the conversion table of \<open>fds_field2str_be\<close> gives them in its comments,
  which is the order of the element type tags in the data model of the specification.
\<close>

abbreviation (input) FDS_ET_OCTET_ARRAY :: nat where "FDS_ET_OCTET_ARRAY \<equiv> 0"
abbreviation (input) FDS_ET_UNSIGNED_8 :: nat where "FDS_ET_UNSIGNED_8 \<equiv> 1"
abbreviation (input) FDS_ET_UNSIGNED_16 :: nat where "FDS_ET_UNSIGNED_16 \<equiv> 2"
abbreviation (input) FDS_ET_UNSIGNED_32 :: nat where "FDS_ET_UNSIGNED_32 \<equiv> 3"
abbreviation (input) FDS_ET_UNSIGNED_64 :: nat where "FDS_ET_UNSIGNED_64 \<equiv> 4"
abbreviation (input) FDS_ET_SIGNED_8 :: nat where "FDS_ET_SIGNED_8 \<equiv> 5"
abbreviation (input) FDS_ET_SIGNED_16 :: nat where "FDS_ET_SIGNED_16 \<equiv> 6"
abbreviation (input) FDS_ET_SIGNED_32 :: nat where "FDS_ET_SIGNED_32 \<equiv> 7"
abbreviation (input) FDS_ET_SIGNED_64 :: nat where "FDS_ET_SIGNED_64 \<equiv> 8"
abbreviation (input) FDS_ET_FLOAT_32 :: nat where "FDS_ET_FLOAT_32 \<equiv> 9"
abbreviation (input) FDS_ET_FLOAT_64 :: nat where "FDS_ET_FLOAT_64 \<equiv> 10"
abbreviation (input) FDS_ET_BOOLEAN :: nat where "FDS_ET_BOOLEAN \<equiv> 11"
abbreviation (input) FDS_ET_MAC_ADDRESS :: nat where "FDS_ET_MAC_ADDRESS \<equiv> 12"
abbreviation (input) FDS_ET_STRING :: nat where "FDS_ET_STRING \<equiv> 13"
abbreviation (input) FDS_ET_DATE_TIME_SECONDS :: nat where "FDS_ET_DATE_TIME_SECONDS \<equiv> 14"
abbreviation (input) FDS_ET_DATE_TIME_MILLISECONDS :: nat where "FDS_ET_DATE_TIME_MILLISECONDS \<equiv> 15"
abbreviation (input) FDS_ET_DATE_TIME_MICROSECONDS :: nat where "FDS_ET_DATE_TIME_MICROSECONDS \<equiv> 16"
abbreviation (input) FDS_ET_DATE_TIME_NANOSECONDS :: nat where "FDS_ET_DATE_TIME_NANOSECONDS \<equiv> 17"
abbreviation (input) FDS_ET_IPV4_ADDRESS :: nat where "FDS_ET_IPV4_ADDRESS \<equiv> 18"
abbreviation (input) FDS_ET_IPV6_ADDRESS :: nat where "FDS_ET_IPV6_ADDRESS \<equiv> 19"

section \<open>Timestamp codec (converters.h)\<close>

text \<open>\<open>struct timespec\<close>: \<open>time_t tv_sec\<close> and \<open>long tv_nsec\<close>, both 64 bits wide.\<close>

record timespec =
  tv_sec :: "64 word"
  tv_nsec :: "64 word"

abbreviation FDS_CONVERT_EPOCHS_DIFF :: "64 word" where
  "FDS_CONVERT_EPOCHS_DIFF \<equiv> 2208988800"

text \<open>The size and type guard that opens each of the four timestamp functions.\<close>

definition datetime_bad_size :: "nat \<Rightarrow> nat \<Rightarrow> bool" where
  "datetime_bad_size sz type \<longleftrightarrow>
     (sz \<noteq> 8 \<or> type = FDS_ET_DATE_TIME_SECONDS) \<and> (sz \<noteq> 4 \<or> type \<noteq> FDS_ET_DATE_TIME_SECONDS)"

definition fds_set_datetime_lp_be ::
  "byte_order \<Rightarrow> byte list \<Rightarrow> nat \<Rightarrow> nat \<Rightarrow> 64 word \<Rightarrow> fds_status \<times> byte list" where
  "fds_set_datetime_lp_be h field sz type value =
    (let S1E3 = (1000 :: 64 word) in
     if datetime_bad_size sz type then (FDS_ERR_ARG, field)
     else if type = FDS_ET_DATE_TIME_SECONDS then
       (FDS_OK, memcpy field (store_host h 4 (htonl h (ucast (value div S1E3)))))
     else if type = FDS_ET_DATE_TIME_MILLISECONDS then
       (FDS_OK, memcpy field (store_host h 8 (htobe64 h value)))
     else if type = FDS_ET_DATE_TIME_MICROSECONDS \<or> type = FDS_ET_DATE_TIME_NANOSECONDS then
       (let part0 = htonl h (ucast ((value div S1E3) + FDS_CONVERT_EPOCHS_DIFF));
            fraction = (ucast (push_bit 32 (value mod S1E3) div S1E3) :: 32 word);
            fraction = (if type = FDS_ET_DATE_TIME_MICROSECONDS
                        then fraction AND 0xFFFFF800 else fraction);
            field = memcpy_at field 0 (store_host h 4 part0);
            field = memcpy_at field 4 (store_host h 4 (htonl h fraction))
        in (FDS_OK, field))
     else (FDS_ERR_ARG, field))"

definition fds_set_datetime_hp_be ::
  "byte_order \<Rightarrow> byte list \<Rightarrow> nat \<Rightarrow> nat \<Rightarrow> timespec \<Rightarrow> fds_status \<times> byte list" where
  "fds_set_datetime_hp_be h field sz type ts =
    (let S1E3 = (1000 :: 64 word); S1E6 = (1000000 :: 64 word); S1E9 = (1000000000 :: 64 word) in
     if datetime_bad_size sz type then (FDS_ERR_ARG, field)
     else if type = FDS_ET_DATE_TIME_SECONDS then
       (FDS_OK, memcpy field (store_host h 4 (htonl h (ucast (tv_sec ts)))))
     else if type = FDS_ET_DATE_TIME_MILLISECONDS then
       (FDS_OK, memcpy field (store_host h 8 (htobe64 h ((tv_sec ts * S1E3) + (tv_nsec ts div S1E6)))))
     else if type = FDS_ET_DATE_TIME_MICROSECONDS \<or> type = FDS_ET_DATE_TIME_NANOSECONDS then
       (let part0 = htonl h (ucast ((ucast (ucast (tv_sec ts) :: 32 word) :: 64 word)
                                     + FDS_CONVERT_EPOCHS_DIFF));
            fraction = (ucast (push_bit 32 (tv_nsec ts) div S1E9) :: 32 word);
            fraction = (if type = FDS_ET_DATE_TIME_MICROSECONDS
                        then fraction AND 0xFFFFF800 else fraction);
            field = memcpy_at field 0 (store_host h 4 part0);
            field = memcpy_at field 4 (store_host h 4 (htonl h fraction))
        in (FDS_OK, field))
     else (FDS_ERR_ARG, field))"

text \<open>
  The getters return the status and the contents of the out-parameter after the call; the
  last argument is what the out-parameter held before.
\<close>

definition fds_get_datetime_lp_be ::
  "byte_order \<Rightarrow> byte list \<Rightarrow> nat \<Rightarrow> nat \<Rightarrow> 64 word \<Rightarrow> fds_status \<times> 64 word" where
  "fds_get_datetime_lp_be h field sz type value =
    (let S1E3 = (1000 :: 64 word) in
     if datetime_bad_size sz type then (FDS_ERR_ARG, value)
     else if type = FDS_ET_DATE_TIME_SECONDS then
       (FDS_OK, ucast (ntohl h (load_host h (take 4 field))) * S1E3)
     else if type = FDS_ET_DATE_TIME_MILLISECONDS then
       (FDS_OK, be64toh h (load_host h (take 8 field)))
     else if type = FDS_ET_DATE_TIME_MICROSECONDS \<or> type = FDS_ET_DATE_TIME_NANOSECONDS then
       (let result = (ucast (ntohl h (load_host h (take 4 field))) - FDS_CONVERT_EPOCHS_DIFF) * S1E3;
            fraction = (ucast (ntohl h (load_host h (take 4 (drop 4 field)))) :: 64 word);
            fraction = (if type = FDS_ET_DATE_TIME_MICROSECONDS
                        then fraction AND 0xFFFFF800 else fraction);
            result = result + drop_bit 32 (fraction * S1E3)
        in (FDS_OK, result))
     else (FDS_ERR_ARG, value))"

definition fds_get_datetime_hp_be ::
  "byte_order \<Rightarrow> byte list \<Rightarrow> nat \<Rightarrow> nat \<Rightarrow> timespec \<Rightarrow> fds_status \<times> timespec" where
  "fds_get_datetime_hp_be h field sz type ts =
    (let S1E3 = (1000 :: 64 word); S1E6 = (1000000 :: 64 word); S1E9 = (1000000000 :: 64 word) in
     if datetime_bad_size sz type then (FDS_ERR_ARG, ts)
     else if type = FDS_ET_DATE_TIME_SECONDS then
       (FDS_OK, ts\<lparr>tv_sec := ucast (ntohl h (load_host h (take 4 field))), tv_nsec := 0\<rparr>)
     else if type = FDS_ET_DATE_TIME_MILLISECONDS then
       (let new_value = be64toh h (load_host h (take 8 field))
        in (FDS_OK, ts\<lparr>tv_sec := new_value div S1E3, tv_nsec := (new_value mod S1E3) * S1E6\<rparr>))
     else if type = FDS_ET_DATE_TIME_MICROSECONDS \<or> type = FDS_ET_DATE_TIME_NANOSECONDS then
       (let sec = ucast (ntohl h (load_host h (take 4 field))) - FDS_CONVERT_EPOCHS_DIFF;
            fraction = (ucast (ntohl h (load_host h (take 4 (drop 4 field)))) :: 64 word);
            fraction = (if type = FDS_ET_DATE_TIME_MICROSECONDS
                        then fraction AND 0xFFFFF800 else fraction);
            fraction = fraction * S1E9;
            fraction = drop_bit 31 fraction;
            fraction = (if fraction AND 1 \<noteq> 0 then fraction + 1 else fraction)
        in (FDS_OK, ts\<lparr>tv_sec := sec, tv_nsec := drop_bit 1 fraction\<rparr>))
     else (FDS_ERR_ARG, ts))"

section \<open>Float encoder (converters.c)\<close>

text \<open>
  A \<open>double\<close> is carried as a value of an abstract type \<open>'d\<close>. What the C library and the
  hardware do with it is a parameter: the bit pattern of the double, the bit pattern of
  its conversion to \<open>float\<close>, the two comparisons with \<open>FLT_MAX\<close>, \<open>isnormal\<close>, and the
  bit pattern of \<open>FLT_MAX\<close> and of \<open>-FLT_MAX\<close>.
\<close>

record 'd float_ops =
  dbl_bits :: "'d \<Rightarrow> 64 word"
  dbl_to_flt_bits :: "'d \<Rightarrow> 32 word"
  lt_neg_flt_max :: "'d \<Rightarrow> bool"
  gt_flt_max :: "'d \<Rightarrow> bool"
  isnormal :: "'d \<Rightarrow> bool"
  flt_max_bits :: "32 word"
  neg_flt_max_bits :: "32 word"

definition fds_set_float_be ::
  "'d float_ops \<Rightarrow> byte_order \<Rightarrow> byte list \<Rightarrow> nat \<Rightarrow> 'd \<Rightarrow> fds_status \<times> byte list" where
  "fds_set_float_be fp h field sz value =
    (if sz = 8 then (FDS_OK, memcpy field (store_host h 8 (htobe64 h (dbl_bits fp value))))
     else if sz = 4 then
       (let (u32, over) =
              (if lt_neg_flt_max fp value \<and> isnormal fp value then (neg_flt_max_bits fp, True)
               else if gt_flt_max fp value \<and> isnormal fp value then (flt_max_bits fp, True)
               else (dbl_to_flt_bits fp value, False))
        in ((if over then FDS_ERR_TRUNC else FDS_OK), memcpy field (store_host h 4 (htonl h u32))))
     else (FDS_ERR_ARG, field))"


section \<open>UTF-8 escaper and checker (converters.c)\<close>

text \<open>
  \<open>utf8char_is_valid(str, len)\<close>: \<open>str\<close> is the memory from the start of the character on;
  the caller passes \<open>len \<ge> 1\<close>. The two tail checks read a \<open>uint16_t\<close> and a \<open>uint32_t\<close>
  from memory in host order, and the four-byte check overwrites the first byte of the
  loaded value in memory before masking it.
\<close>

definition utf8char_is_valid :: "byte_order \<Rightarrow> byte list \<Rightarrow> nat \<Rightarrow> nat" where
  "utf8char_is_valid h str len =
    (if (str ! 0) AND 0x80 = 0 then 1
     else if (str ! 0) AND 0xE0 = 0xC0 \<and> len \<ge> 2 then
       (if (str ! 1) AND 0xC0 = 0x80 then 2 else 0)
     else if (str ! 0) AND 0xF0 = 0xE0 \<and> len \<ge> 3 then
       (let tail = (load_host h (take 2 (drop 1 str)) :: 16 word)
        in if tail AND 0xC0C0 = 0x8080 then 3 else 0)
     else if (str ! 0) AND 0xF8 = 0xF0 \<and> len \<ge> 4 then
       (let tail = (load_host h (take 4 str) :: 32 word);
            tail = (load_host h ((store_host h 4 tail)[0 := 0x80]) :: 32 word)
        in if tail AND 0xC0C0C0C0 = 0x80808080 then 4 else 0)
     else 0)"

definition utf8char_is_control :: "byte list \<Rightarrow> nat \<Rightarrow> bool" where
  "utf8char_is_control str len \<longleftrightarrow>
     (str ! 0 \<le> 0x1F \<or> str ! 0 = 0x7F) \<or> (str ! 0 \<ge> 0x80 \<and> str ! 0 \<le> 0x9F)"

text \<open>
  \<open>utf8char_is_escapable(str, len, repl)\<close>: \<open>Some c\<close> stands for the result \<open>true\<close> with
  \<open>c\<close> stored in \<open>*repl\<close>, \<open>None\<close> for the result \<open>false\<close>, which leaves \<open>*repl\<close> alone.
  The caller reads \<open>*repl\<close> only after a result \<open>true\<close>.
\<close>

definition utf8char_is_escapable :: "byte list \<Rightarrow> nat \<Rightarrow> byte option" where
  "utf8char_is_escapable str len =
    (if (str ! 0) AND 0x80 \<noteq> 0 then None
     else if str ! 0 = 0x07 then Some 0x61
     else if str ! 0 = 0x0A then Some 0x6E
     else if str ! 0 = 0x0D then Some 0x72
     else if str ! 0 = 0x09 then Some 0x74
     else if str ! 0 = 0x08 then Some 0x62
     else if str ! 0 = 0x0C then Some 0x66
     else if str ! 0 = 0x0B then Some 0x76
     else None)"

text \<open>The hexadecimal digit of a nibble: \<open>(hex < 10) ? ('0' + hex) : ('A' - 10 + hex)\<close>.\<close>

definition hex_digit :: "byte \<Rightarrow> byte" where
  "hex_digit hex = (if hex < 10 then 0x30 + hex else 0x41 - 10 + hex)"

text \<open>
  The variables of \<open>fds_string2str\<close> that live across iterations of its loop. \<open>ptr_out\<close> is
  the memory of the output buffer.
\<close>

record s2s_state =
  pos_in :: nat
  pos_copy :: nat
  pos_out :: nat
  ptr_out :: "byte list"

text \<open>
  Sizes and positions are natural numbers. The loop keeps \<open>pos_copy \<le> pos_in \<le> size\<close>
  and \<open>pos_out \<le> str_size\<close> (part of \<open>s2s_inv\<close> below, shown to be an invariant), so none
  of the \<open>size_t\<close> subtractions of the source wraps around.

  One pass through the body of the loop. \<open>Inl\<close> is a \<open>return\<close> from inside the loop, with
  the output buffer as it is then; \<open>Inr\<close> carries the state and the \<open>step\<close> the body has
  set, and the loop header adds \<open>step\<close> to \<open>pos_in\<close>.
\<close>

definition string2str_iter ::
  "byte_order \<Rightarrow> byte list \<Rightarrow> nat \<Rightarrow> nat \<Rightarrow> s2s_state \<Rightarrow> (fds_status \<times> byte list) + (s2s_state \<times> nat)" where
  "string2str_iter h field sz str_size s =
    (let char_ptr = drop (pos_in s) field;
         char_max = sz - pos_in s;
         is_valid = utf8char_is_valid h char_ptr char_max;
         is_escapable = utf8char_is_escapable char_ptr char_max;
         is_control = utf8char_is_control char_ptr char_max;
         step = (if is_valid > 0 then is_valid else 1)
     in if is_valid \<noteq> 0 \<and> is_escapable = None \<and> \<not> is_control then Inr (s, step)
        else
          (let copy_len = pos_in s - pos_copy s;
               out_remaining = str_size - pos_out s
           in if copy_len > out_remaining then Inl (FDS_ERR_BUFFER, ptr_out s)
              else
                (let out = memcpy_at (ptr_out s) (pos_out s) (take copy_len (drop (pos_copy s) field));
                     out_remaining = out_remaining - copy_len;
                     p = pos_out s + copy_len;
                     s = s\<lparr>pos_copy := pos_in s + 1, pos_out := p, ptr_out := out\<rparr>
                 in case is_escapable of
                      Some subst \<Rightarrow>
                        if out_remaining < 2 then Inl (FDS_ERR_BUFFER, out)
                        else Inr (s\<lparr>pos_out := p + 2,
                                    ptr_out := out[p := 0x5C, p + 1 := subst]\<rparr>, step)
                    | None \<Rightarrow>
                        if is_control then
                          (if out_remaining < 4 then Inl (FDS_ERR_BUFFER, out)
                           else Inr (s\<lparr>pos_out := p + 4,
                                       ptr_out := out[p := 0x5C, p + 1 := 0x78,
                                         p + 2 := hex_digit (drop_bit 4 ((char_ptr ! 0) AND 0xF0)),
                                         p + 3 := hex_digit ((char_ptr ! 0) AND 0x0F)]\<rparr>, step))
                        else
                          (if out_remaining < 3 then Inl (FDS_ERR_BUFFER, out)
                           else Inr (s\<lparr>pos_out := p + 3,
                                       ptr_out := out[p := 0xEF, p + 1 := 0xBF, p + 2 := 0xBD]\<rparr>,
                                     step)))))"

function string2str_loop ::
  "byte_order \<Rightarrow> byte list \<Rightarrow> nat \<Rightarrow> nat \<Rightarrow> s2s_state \<Rightarrow> (fds_status \<times> byte list) + s2s_state" where
  "string2str_loop h field sz str_size s =
    (if pos_in s < sz then
       (case string2str_iter h field sz str_size s of
          Inl r \<Rightarrow> Inl r
        | Inr (s', step) \<Rightarrow> string2str_loop h field sz str_size (s'\<lparr>pos_in := pos_in s' + step\<rparr>))
     else Inr s)"
  by pat_completeness auto
termination
proof (relation "measure (\<lambda>(h, field, sz, str_size, s). sz - pos_in s)")
  show "wf (measure (\<lambda>(h, field, sz, str_size, s). sz - pos_in s))" by simp
next
  fix h field sz str_size s x2 s' step
  assume lt: "pos_in s < sz"
    and it: "string2str_iter h field sz str_size s = Inr x2" "(s', step) = x2"
  from it have "pos_in s' = pos_in s \<and> 0 < step"
    by (auto simp: string2str_iter_def Let_def split: if_splits option.splits)
  with lt show "((h, field, sz, str_size, s'\<lparr>pos_in := pos_in s' + step\<rparr>), (h, field, sz, str_size, s))
        \<in> measure (\<lambda>(h, field, sz, str_size, s). sz - pos_in s)"
    by simp arith
qed

declare string2str_loop.simps [simp del]

text \<open>
  \<open>fds_string2str(field, size, str, str_size)\<close>: the result is what the function returns
  and the memory of \<open>str\<close> after the call. A count is returned as \<open>(int) pos_out\<close>, a
  conversion of a \<open>size_t\<close> to a 32-bit \<open>int\<close>.
\<close>

definition fds_string2str ::
  "byte_order \<Rightarrow> byte list \<Rightarrow> nat \<Rightarrow> byte list \<Rightarrow> nat \<Rightarrow> (fds_status + int) \<times> byte list" where
  "fds_string2str h field sz str str_size =
    (if sz + 1 > str_size then (Inl FDS_ERR_BUFFER, str)
     else
       (case string2str_loop h field sz str_size
               \<lparr>pos_in = 0, pos_copy = 0, pos_out = 0, ptr_out = str\<rparr> of
          Inl (e, out) \<Rightarrow> (Inl e, out)
        | Inr s \<Rightarrow>
            (let copy_len = sz - pos_copy s;
                 out_remaining = str_size - pos_out s
             in if copy_len + 1 > out_remaining then (Inl FDS_ERR_BUFFER, ptr_out s)
                else
                  (let out = memcpy_at (ptr_out s) (pos_out s)
                               (take copy_len (drop (pos_copy s) field));
                       p = pos_out s + copy_len;
                       out = out[p := 0]
                   in (Inr (sint (word_of_nat p :: 32 word)), out)))))"

function utf8check_loop :: "byte_order \<Rightarrow> byte list \<Rightarrow> nat \<Rightarrow> nat \<Rightarrow> fds_status" where
  "utf8check_loop h field sz idx =
    (if idx < sz then
       (let step = utf8char_is_valid h (drop idx field) (sz - idx)
        in if step = 0 then FDS_ERR_ARG else utf8check_loop h field sz (idx + step))
     else FDS_OK)"
  by pat_completeness auto
termination
  by (relation "measure (\<lambda>(h, field, sz, idx). sz - idx)") auto

declare utf8check_loop.simps [simp del]

definition fds_string_utf8check :: "byte_order \<Rightarrow> byte list \<Rightarrow> nat \<Rightarrow> fds_status" where
  "fds_string_utf8check h field sz = utf8check_loop h field sz 0"

section \<open>Dispatch of the text renderers (converters.c)\<close>

text \<open>
  A converter takes \<open>(field, size, str, str_size)\<close> and yields what it returns together
  with the memory of \<open>str\<close> after the call. The renderers other than \<open>fds_string2str\<close>
  are parameters of the dispatch.
\<close>

type_synonym converter_result = "(fds_status + int) \<times> byte list"
type_synonym converter_fn = "byte list \<Rightarrow> nat \<Rightarrow> byte list \<Rightarrow> nat \<Rightarrow> converter_result"

record renderers =
  fds_octet_array2str :: converter_fn
  fds_uint2str_be :: converter_fn
  fds_int2str_be :: converter_fn
  fds_float2str_be :: converter_fn
  fds_bool2str :: "byte list \<Rightarrow> byte list \<Rightarrow> nat \<Rightarrow> converter_result"
  fds_mac2str :: converter_fn
  fds_datetime2str_be :: "byte list \<Rightarrow> nat \<Rightarrow> nat \<Rightarrow> byte list \<Rightarrow> nat \<Rightarrow> nat \<Rightarrow> converter_result"
  fds_ip2str :: converter_fn

abbreviation (input) FDS_CONVERT_TF_SEC_UTC :: nat where "FDS_CONVERT_TF_SEC_UTC \<equiv> 0x01"
abbreviation (input) FDS_CONVERT_TF_MSEC_UTC :: nat where "FDS_CONVERT_TF_MSEC_UTC \<equiv> 0x02"
abbreviation (input) FDS_CONVERT_TF_USEC_UTC :: nat where "FDS_CONVERT_TF_USEC_UTC \<equiv> 0x03"
abbreviation (input) FDS_CONVERT_TF_NSEC_UTC :: nat where "FDS_CONVERT_TF_NSEC_UTC \<equiv> 0x04"

definition wrapper_ts_sec_be :: "renderers \<Rightarrow> converter_fn" where
  "wrapper_ts_sec_be R field sz str str_size =
     fds_datetime2str_be R field sz FDS_ET_DATE_TIME_SECONDS str str_size FDS_CONVERT_TF_SEC_UTC"

definition wrapper_ts_msec_be :: "renderers \<Rightarrow> converter_fn" where
  "wrapper_ts_msec_be R field sz str str_size =
     fds_datetime2str_be R field sz FDS_ET_DATE_TIME_MILLISECONDS str str_size FDS_CONVERT_TF_MSEC_UTC"

definition wrapper_ts_usec_be :: "renderers \<Rightarrow> converter_fn" where
  "wrapper_ts_usec_be R field sz str str_size =
     fds_datetime2str_be R field sz FDS_ET_DATE_TIME_MICROSECONDS str str_size FDS_CONVERT_TF_USEC_UTC"

definition wrapper_ts_nsec_be :: "renderers \<Rightarrow> converter_fn" where
  "wrapper_ts_nsec_be R field sz str str_size =
     fds_datetime2str_be R field sz FDS_ET_DATE_TIME_NANOSECONDS str str_size FDS_CONVERT_TF_NSEC_UTC"

definition wrapper_bool :: "renderers \<Rightarrow> converter_fn" where
  "wrapper_bool R field sz str str_size =
     (if sz \<noteq> 1 then (Inl FDS_ERR_ARG, str) else fds_bool2str R field str str_size)"

definition wrapper_ip4 :: "renderers \<Rightarrow> converter_fn" where
  "wrapper_ip4 R field sz str str_size =
     (if sz \<noteq> 4 then (Inl FDS_ERR_ARG, str) else fds_ip2str R field sz str str_size)"

definition wrapper_ip6 :: "renderers \<Rightarrow> converter_fn" where
  "wrapper_ip6 R field sz str str_size =
     (if sz \<noteq> 16 then (Inl FDS_ERR_ARG, str) else fds_ip2str R field sz str str_size)"

text \<open>The conversion table of \<open>fds_field2str_be\<close>, in the order of the source.\<close>

definition table :: "renderers \<Rightarrow> byte_order \<Rightarrow> converter_fn list" where
  "table R h =
    [fds_octet_array2str R,
     fds_uint2str_be R, fds_uint2str_be R, fds_uint2str_be R, fds_uint2str_be R,
     fds_int2str_be R, fds_int2str_be R, fds_int2str_be R, fds_int2str_be R,
     fds_float2str_be R, fds_float2str_be R,
     wrapper_bool R,
     fds_mac2str R,
     fds_string2str h,
     wrapper_ts_sec_be R, wrapper_ts_msec_be R, wrapper_ts_usec_be R, wrapper_ts_nsec_be R,
     wrapper_ip4 R, wrapper_ip6 R]"

definition fds_field2str_be ::
  "renderers \<Rightarrow> byte_order \<Rightarrow> byte list \<Rightarrow> nat \<Rightarrow> nat \<Rightarrow> byte list \<Rightarrow> nat \<Rightarrow> converter_result" where
  "fds_field2str_be R h field sz type str str_size =
    (let table_size = length (table R h)
     in if type \<ge> table_size then (Inl FDS_ERR_FORMAT, str)
        else (table R h ! type) field sz str str_size)"


section \<open>Notions used by the claims\<close>

text \<open>
  The size and type combinations the specification allows for a timestamp: four bytes for
  \<open>FDS_ET_DATE_TIME_SECONDS\<close>, eight bytes for the three other timestamp types.
\<close>

definition datetime_size_legal :: "nat \<Rightarrow> nat \<Rightarrow> bool" where
  "datetime_size_legal sz type \<longleftrightarrow>
     (type = FDS_ET_DATE_TIME_SECONDS \<and> sz = 4) \<or>
     ((type = FDS_ET_DATE_TIME_MILLISECONDS \<or> type = FDS_ET_DATE_TIME_MICROSECONDS \<or>
       type = FDS_ET_DATE_TIME_NANOSECONDS) \<and> sz = 8)"

text \<open>
  The length of the structurally valid UTF-8 sequence at the start of \<open>str\<close>, of which
  \<open>len\<close> bytes may be read, byte by byte: the lead byte selects the length, and every
  tail byte must match \<open>10xxxxxx\<close>. The result is 0 when there is no such sequence.
\<close>

definition utf8_seq_len :: "byte list \<Rightarrow> nat \<Rightarrow> nat" where
  "utf8_seq_len str len =
    (if (str ! 0) AND 0x80 = 0 then 1
     else if (str ! 0) AND 0xE0 = 0xC0 \<and> 2 \<le> len then
       (if (str ! 1) AND 0xC0 = 0x80 then 2 else 0)
     else if (str ! 0) AND 0xF0 = 0xE0 \<and> 3 \<le> len then
       (if (str ! 1) AND 0xC0 = 0x80 \<and> (str ! 2) AND 0xC0 = 0x80 then 3 else 0)
     else if (str ! 0) AND 0xF8 = 0xF0 \<and> 4 \<le> len then
       (if (str ! 1) AND 0xC0 = 0x80 \<and> (str ! 2) AND 0xC0 = 0x80 \<and> (str ! 3) AND 0xC0 = 0x80
        then 4 else 0)
     else 0)"

text \<open>The sixteen uppercase hexadecimal digits \<open>0\<close> to \<open>9\<close> and \<open>A\<close> to \<open>F\<close>, in ASCII.\<close>

definition hex_upper :: "byte list" where
  "hex_upper = [0x30, 0x31, 0x32, 0x33, 0x34, 0x35, 0x36, 0x37, 0x38, 0x39,
                0x41, 0x42, 0x43, 0x44, 0x45, 0x46]"

text \<open>A byte sequence passes \<open>fds_string_utf8check\<close> when it is checked over its whole length.\<close>

definition utf8_ok :: "byte_order \<Rightarrow> byte list \<Rightarrow> bool" where
  "utf8_ok h bs \<longleftrightarrow> fds_string_utf8check h bs (length bs) = FDS_OK"


text \<open>
  The characters of the input, as the loop of \<open>fds_string2str\<close> walks them. \<open>char_step\<close> is
  the \<open>step\<close> that the body of the loop computes for the character at position \<open>i\<close>, and
  \<open>char_starts\<close> lists the values \<open>pos_in\<close> takes from \<open>i\<close> on (\<open>pos_in += step\<close> while
  \<open>pos_in < size\<close>): the positions where a new character starts.
\<close>

definition char_step :: "byte_order \<Rightarrow> byte list \<Rightarrow> nat \<Rightarrow> nat \<Rightarrow> nat" where
  "char_step h field sz i =
    (let is_valid = utf8char_is_valid h (drop i field) (sz - i)
     in if is_valid > 0 then is_valid else 1)"

function char_starts :: "byte_order \<Rightarrow> byte list \<Rightarrow> nat \<Rightarrow> nat \<Rightarrow> nat list" where
  "char_starts h field sz i =
    (if i < sz then i # char_starts h field sz (i + char_step h field sz i) else [])"
  by pat_completeness auto
termination
  by (relation "measure (\<lambda>(h, field, sz, i). sz - i)") (auto simp: char_step_def Let_def)

declare char_starts.simps [simp del]

text \<open>
  The bytes that the output gains for the character at position \<open>i\<close>, by the branch of
  the loop body that the character takes: the character itself when it is left to the
  copy region, else the two, four or three bytes that the branch stores.
\<close>

definition emit_char :: "byte_order \<Rightarrow> byte list \<Rightarrow> nat \<Rightarrow> nat \<Rightarrow> byte list" where
  "emit_char h field sz i =
    (let char_ptr = drop i field;
         char_max = sz - i;
         is_valid = utf8char_is_valid h char_ptr char_max;
         is_escapable = utf8char_is_escapable char_ptr char_max;
         is_control = utf8char_is_control char_ptr char_max
     in if is_valid \<noteq> 0 \<and> is_escapable = None \<and> \<not> is_control then take is_valid char_ptr
        else
          (case is_escapable of
             Some subst \<Rightarrow> [0x5C, subst]
           | None \<Rightarrow>
               if is_control then
                 [0x5C, 0x78, hex_digit (drop_bit 4 ((char_ptr ! 0) AND 0xF0)),
                  hex_digit ((char_ptr ! 0) AND 0x0F)]
               else [0xEF, 0xBF, 0xBD]))"

text \<open>
  The output text for the characters that start at \<open>i\<close> or later, and for the characters
  that start before \<open>i\<close>.
\<close>

definition escaped_from :: "byte_order \<Rightarrow> byte list \<Rightarrow> nat \<Rightarrow> nat \<Rightarrow> byte list" where
  "escaped_from h field sz i = concat (map (emit_char h field sz) (char_starts h field sz i))"

definition escaped_before :: "byte_order \<Rightarrow> byte list \<Rightarrow> nat \<Rightarrow> nat \<Rightarrow> byte list" where
  "escaped_before h field sz i =
     concat (map (emit_char h field sz) (takeWhile (\<lambda>j. j < i) (char_starts h field sz 0)))"

text \<open>
  A second invariant of the loop, on the text: what has been written so far, followed by
  the pending bytes of the copy region and by the output text of the characters still to
  come, is the output text of the whole input.
\<close>

definition s2s_text_inv :: "byte_order \<Rightarrow> byte list \<Rightarrow> nat \<Rightarrow> nat \<Rightarrow> s2s_state \<Rightarrow> bool" where
  "s2s_text_inv h field sz str_size s \<longleftrightarrow>
     pos_copy s \<le> pos_in s \<and> pos_in s \<le> sz \<and> sz \<le> length field \<and>
     pos_out s \<le> str_size \<and> str_size \<le> length (ptr_out s) \<and>
     (take (pos_out s) (ptr_out s) @ take (pos_in s - pos_copy s) (drop (pos_copy s) field)) @
       escaped_from h field sz (pos_in s) = escaped_from h field sz 0"

section \<open>Bytes of a word\<close>

lemma length_le_bytes [simp]: "length (le_bytes n w) = n"
  by (simp add: le_bytes_def)

lemma le_bytes_nth: "i < n \<Longrightarrow> le_bytes n w ! i = ucast (drop_bit (8 * i) w)"
  by (simp add: le_bytes_def)

lemma bit_le_word:
  "bit (le_word bs :: 'a::len word) k \<longleftrightarrow>
     k < LENGTH('a) \<and> k div 8 < length bs \<and> bit (bs ! (k div 8)) (k mod 8)"
proof (induction bs arbitrary: k)
  case Nil
  then show ?case by simp
next
  case (Cons b bs)
  show ?case
  proof (cases "k < 8")
    case True
    then show ?thesis
      by (auto simp: bit_simps dest: bit_imp_le_length)
  next
    case False
    then have k: "k = (k - 8) + 8" by simp
    have d: "k div 8 = Suc ((k - 8) div 8)" and m: "k mod 8 = (k - 8) mod 8"
      using False by (simp_all add: le_div_geq le_mod_geq)
    show ?thesis
      using False by (auto simp: bit_simps Cons.IH d m dest: bit_imp_le_length)
  qed
qed

lemma le_word_le_bytes: "le_word (le_bytes n w) = take_bit (8 * n) w"
  by (rule bit_word_eqI) (auto simp: bit_le_word le_bytes_nth bit_simps dest: bit_imp_le_length)

lemma le_bytes_le_word:
  "length bs = n \<Longrightarrow> 8 * n \<le> LENGTH('a) \<Longrightarrow> le_bytes n (le_word bs :: 'a::len word) = bs"
  apply (rule nth_equalityI)
   apply simp
  apply (rule bit_word_eqI)
  apply (auto simp: bit_le_word le_bytes_nth bit_simps dest: bit_imp_le_length)
  done


lemma le_bytes_bswap:
  "8 * n \<le> LENGTH('a) \<Longrightarrow> le_bytes n (bswap n w :: 'a::len word) = rev (le_bytes n w)"
  by (simp add: bswap_def le_bytes_le_word)

lemma store_htobe64: "store_host h 8 (htobe64 h w) = rev (le_bytes 8 w)"
  by (cases h) (simp_all add: store_host_def htobe64_def le_bytes_bswap)

lemma store_htonl: "store_host h 4 (htonl h w) = rev (le_bytes 4 w)"
  by (cases h) (simp_all add: store_host_def htonl_def le_bytes_bswap)

lemma store_htons: "store_host h 2 (htons h w) = rev (le_bytes 2 w)"
  by (cases h) (simp_all add: store_host_def htons_def le_bytes_bswap)

lemma load_be64toh: "length bs = 8 \<Longrightarrow> be64toh h (load_host h bs) = le_word (rev bs)"
  by (cases h) (simp_all add: load_host_def be64toh_def bswap_def le_bytes_le_word)

lemma load_ntohl: "length bs = 4 \<Longrightarrow> ntohl h (load_host h bs) = le_word (rev bs)"
  by (cases h) (simp_all add: load_host_def ntohl_def bswap_def le_bytes_le_word)

lemma load_ntohs: "length bs = 2 \<Longrightarrow> ntohs h (load_host h bs) = le_word (rev bs)"
  by (cases h) (simp_all add: load_host_def ntohs_def bswap_def le_bytes_le_word)

lemma store_host_1: "store_host h (Suc 0) w = [ucast w]"
  by (cases h) (simp_all add: store_host_def le_bytes_def)

lemma load_host_1: "load_host h [b] = ucast b"
  by (cases h) (simp_all add: load_host_def)



lemma le_bytes_ucast:
  "8 * n \<le> LENGTH('b) \<Longrightarrow> le_bytes n (ucast (v :: 'a::len word) :: 'b::len word) = le_bytes n v"
  apply (rule nth_equalityI)
   apply simp
  apply (rule bit_word_eqI)
  apply (auto simp: le_bytes_nth bit_simps)
  done

lemma take_le_bytes: "m \<le> n \<Longrightarrow> take m (le_bytes n w) = le_bytes m w"
  by (simp add: le_bytes_def take_map)

lemma drop_rev_le_bytes: "s \<le> n \<Longrightarrow> drop (n - s) (rev (le_bytes n w)) = rev (le_bytes s w)"
  by (simp add: drop_rev take_le_bytes)

lemma le_bytes_minus1: "le_bytes n (- 1 :: 'a::len word) = replicate n (- 1)" if "8 * n \<le> LENGTH('a)"
  apply (rule nth_equalityI)
   apply simp
  apply (rule bit_word_eqI)
  using that apply (auto simp: le_bytes_nth bit_simps)
  done

lemma le_bytes_zero: "le_bytes n (0 :: 'a::len word) = replicate n 0"
  apply (rule nth_equalityI)
   apply simp
  apply (simp add: le_bytes_nth)
  done

lemma store_host_zero: "store_host h n (0 :: 'a::len word) = replicate n 0"
  by (cases h) (simp_all add: store_host_def le_bytes_zero)

lemma store_host_minus1:
  "8 * n \<le> LENGTH('a) \<Longrightarrow> store_host h n (- 1 :: 'a::len word) = replicate n (- 1)"
  by (cases h) (simp_all add: store_host_def le_bytes_minus1)

lemma unat_less_take_bit: "unat (v :: 'a::len word) < 2 ^ n \<Longrightarrow> take_bit n v = v"
  by (simp add: word_unat_eq_iff unsigned_take_bit_eq take_bit_nat_eq_self_iff)

lemma fds_set_uint_be_ok:
  assumes "1 \<le> s" "s \<le> 8" "unat v < 2 ^ (8 * s)"
  shows "fds_set_uint_be h field s v = (FDS_OK, memcpy field (rev (le_bytes s v)))"
proof -
  have tb: "take_bit (8 * s) v = v" using assms(3) by (rule unat_less_take_bit)
  consider "s = 8" | "s = 4" | "s = 2" | "s = 1" | "s = 3 \<or> s = 5 \<or> s = 6 \<or> s = 7"
    using assms(1,2) by linarith
  then show ?thesis
  proof cases
    case 1
    then show ?thesis by (simp add: fds_set_uint_be_def store_htobe64)
  next
    case 2
    have "\<not> v > 0xFFFFFFFF" using assms(3) 2 by (simp add: word_less_nat_alt)
    then show ?thesis using 2
      by (simp add: fds_set_uint_be_def store_htonl le_bytes_ucast)
  next
    case 3
    have "\<not> v > 0xFFFF" using assms(3) 3 by (simp add: word_less_nat_alt)
    then show ?thesis using 3
      by (simp add: fds_set_uint_be_def store_htons le_bytes_ucast)
  next
    case 4
    have "\<not> v > 0xFF" using assms(3) 4 by (simp add: word_less_nat_alt)
    then show ?thesis using 4
      by (simp add: fds_set_uint_be_def store_host_1 le_bytes_def)
  next
    case 5
    have "\<not> push_bit (s * 8) (1 :: 64 word) \<le> v"
      using assms(3) 5 by (auto simp: word_le_nat_alt)
    then show ?thesis using 5
      by (auto simp: fds_set_uint_be_def store_htobe64 drop_rev_le_bytes)
  qed
qed



lemma le_word_replicate_zero: "le_word (replicate k 0) = 0"
  by (induction k) simp_all

lemma le_word_append_zeros: "le_word (xs @ replicate k 0) = le_word xs"
  by (induction xs) (simp_all add: le_word_replicate_zero)

lemma ucast_le_word:
  "8 * length bs \<le> LENGTH('a) \<Longrightarrow> LENGTH('a) \<le> LENGTH('b) \<Longrightarrow>
   ucast (le_word bs :: 'a::len word) = (le_word bs :: 'b::len word)"
  by (rule bit_word_eqI) (auto simp: bit_simps bit_le_word)

lemma byte_sign_bit: "(b :: byte) AND 0x80 \<noteq> 0 \<longleftrightarrow> bit b 7"
  using and_exp_eq_0_iff_not_bit [of b 7] by simp

lemma fds_get_uint_be_val:
  assumes "1 \<le> s" "s \<le> 8" "length bs = s" "take s field = bs"
  shows "fds_get_uint_be h field s v0 = (FDS_OK, le_word (rev bs))"
proof -
  consider "s = 8" | "s = 4" | "s = 2" | "s = 1" | "s = 3 \<or> s = 5 \<or> s = 6 \<or> s = 7"
    using assms(1,2) by linarith
  then show ?thesis
  proof cases
    case 1
    then show ?thesis using assms(3,4) by (simp add: fds_get_uint_be_def load_be64toh)
  next
    case 2
    then show ?thesis using assms(3,4)
      by (simp add: fds_get_uint_be_def load_ntohl ucast_le_word)
  next
    case 3
    then show ?thesis using assms(3,4)
      by (simp add: fds_get_uint_be_def load_ntohs ucast_le_word)
  next
    case 4
    then obtain b where "bs = [b]" using assms(3) by (cases bs) auto
    then show ?thesis using 4 assms(4)
      by (simp add: fds_get_uint_be_def load_host_1)
  next
    case 5
    then have "length (replicate (8 - s) (0::byte) @ bs) = 8" using assms(3) by auto
    then show ?thesis using 5 assms(3,4)
      by (auto simp: fds_get_uint_be_def store_host_zero load_be64toh le_word_append_zeros)
  qed
qed

lemma le_word_rev_le_bytes:
  "unat v < 2 ^ (8 * s) \<Longrightarrow> le_word (rev (rev (le_bytes s v))) = v"
  by (simp add: le_word_le_bytes unat_less_take_bit)

lemma uint_roundtrip:
  assumes "1 \<le> s" "s \<le> 8" "unat v < 2 ^ (8 * s)"
  shows "fst (fds_set_uint_be h field s v) = FDS_OK \<and>
         fds_get_uint_be h (snd (fds_set_uint_be h field s v)) s v0 = (FDS_OK, v)"
proof -
  have set: "fds_set_uint_be h field s v = (FDS_OK, memcpy field (rev (le_bytes s v)))"
    using assms by (rule fds_set_uint_be_ok)
  have len: "length (rev (le_bytes s v)) = s" by (simp add:)
  have tk: "take s (memcpy field (rev (le_bytes s v))) = rev (le_bytes s v)"
    by (simp add: memcpy_def len)
  show ?thesis
    using fds_get_uint_be_val [OF assms(1,2) len tk] le_word_rev_le_bytes [OF assms(3)]
    by (simp add: set)
qed



lemma sint_range_signed_take_bit:
  fixes v :: "'a::len word"
  assumes "- (2 ^ n) \<le> sint v" "sint v < 2 ^ n"
  shows "signed_take_bit n v = v"
proof (rule bit_word_eqI)
  fix k assume k: "k < LENGTH('a)"
  have "signed_take_bit n (sint v) = sint v"
    using assms by (simp add: signed_take_bit_int_eq_self_iff)
  then have "bit (signed_take_bit n (sint v)) k = bit (sint v) k" by simp
  then have "bit (sint v) (min n k) = bit (sint v) k" by (simp add: bit_simps)
  then have "bit v (min n k) = bit v k"
    using k by (simp add: bit_sint_iff min_def split: if_splits)
  then show "bit (signed_take_bit n v) k = bit v k"
    using k by (simp add: bit_simps)
qed

lemmas drop_rev_le_bytes_odd =
  drop_rev_le_bytes [of 3 8, simplified] drop_rev_le_bytes [of 5 8, simplified]
  drop_rev_le_bytes [of 6 8, simplified] drop_rev_le_bytes [of 7 8, simplified]

lemma fds_set_int_be_ok:
  assumes "1 \<le> s" "s \<le> 8" "- (2 ^ (8 * s - 1)) \<le> sint v" "sint v < 2 ^ (8 * s - 1)"
  shows "fds_set_int_be h field s v = (FDS_OK, memcpy field (rev (le_bytes s v)))"
proof -
  consider "s = 8" | "s = 4" | "s = 2" | "s = 1" | "s = 3" | "s = 5" | "s = 6" | "s = 7"
    using assms(1,2) by linarith
  then show ?thesis
  proof cases
    case 1
    then show ?thesis by (simp add: fds_set_int_be_def store_htobe64)
  next
    case 2
    then show ?thesis using assms(3,4)
      by (simp add: fds_set_int_be_def store_htonl le_bytes_ucast word_sless_alt)
  next
    case 3
    then show ?thesis using assms(3,4)
      by (simp add: fds_set_int_be_def store_htons le_bytes_ucast word_sless_alt)
  next
    case 4
    then show ?thesis using assms(3,4)
      by (simp add: fds_set_int_be_def store_host_1 le_bytes_def word_sless_alt)
  next
    case 5
    then show ?thesis using assms(3,4)
      by (simp add: fds_set_int_be_def store_htobe64 drop_rev_le_bytes_odd word_sless_alt)
  next
    case 6
    then show ?thesis using assms(3,4)
      by (simp add: fds_set_int_be_def store_htobe64 drop_rev_le_bytes_odd word_sless_alt)
  next
    case 7
    then show ?thesis using assms(3,4)
      by (simp add: fds_set_int_be_def store_htobe64 drop_rev_le_bytes_odd word_sless_alt)
  next
    case 8
    then show ?thesis using assms(3,4)
      by (simp add: fds_set_int_be_def store_htobe64 drop_rev_le_bytes_odd word_sless_alt)
  qed
qed



lemma scast_le_word:
  assumes "8 * length bs = LENGTH('a)" "LENGTH('a) \<le> LENGTH('b)"
  shows "scast (le_word bs :: 'a::len word) =
         signed_take_bit (LENGTH('a) - 1) (le_word bs :: 'b::len word)"
  using assms
  by (intro bit_word_eqI) (auto simp: bit_simps bit_le_word bit_word_scast_iff min_def)

lemma le_word_sign_extend:
  fixes c :: byte
  assumes "length xs = s" "1 \<le> s" "s \<le> 8" "c = (if bit (xs ! (s - 1)) 7 then - 1 else 0)"
  shows "(le_word (xs @ replicate (8 - s) c) :: 64 word) = signed_take_bit (8 * s - 1) (le_word xs)"
proof (rule bit_word_eqI)
  fix k assume k: "k < LENGTH(64)"
  show "bit (le_word (xs @ replicate (8 - s) c) :: 64 word) k
        = bit (signed_take_bit (8 * s - 1) (le_word xs :: 64 word)) k"
  proof (cases "k < 8 * s")
    case True
    then have "k div 8 < s" by (simp add: less_mult_imp_div_less mult.commute)
    moreover have "min (8 * s - 1) k = k" using True by simp
    ultimately show ?thesis using k assms(1)
      by (simp add: bit_simps bit_le_word nth_append)
  next
    case False
    then have d: "\<not> k div 8 < s" by (simp add: div_less_iff_less_mult mult.commute)
    have d8: "k div 8 < 8" using k by simp
    have m: "min (8 * s - 1) k = 8 * s - 1" using False by simp
    obtain t where t: "s = Suc t" using assms(2) by (cases s) auto
    have "8 * s - Suc 0 = 8 * t + 7" using t by simp
    then have dm: "(8 * s - Suc 0) div 8 = s - Suc 0" "(8 * s - Suc 0) mod 8 = 7"
      using t by simp_all
    have lt: "8 * s - 1 < 64" "s - 1 < s" using assms(2,3) by simp_all
    show ?thesis using k d d8 assms(1,3,4) lt
      by (simp add: bit_simps bit_le_word nth_append m dm)
  qed
qed



lemma signed_take_bit_top: "signed_take_bit 63 (w :: 64 word) = w"
proof (rule bit_word_eqI)
  fix n assume "n < LENGTH(64)"
  then have "min 63 n = n" by simp
  then show "bit (signed_take_bit 63 w) n = bit w n"
    using \<open>n < LENGTH(64)\<close> by (simp add: bit_simps)
qed

lemma fds_get_int_be_val:
  assumes "1 \<le> s" "s \<le> 8" "length bs = s" "take s field = bs"
  shows "fds_get_int_be h field s v0 = (FDS_OK, signed_take_bit (8 * s - 1) (le_word (rev bs)))"
proof -
  consider "s = 8" | "s = 4" | "s = 2" | "s = 1" | "s = 3 \<or> s = 5 \<or> s = 6 \<or> s = 7"
    using assms(1,2) by linarith
  then show ?thesis
  proof cases
    case 1
    then show ?thesis using assms(3,4)
      by (simp add: fds_get_int_be_def load_be64toh signed_take_bit_top)
  next
    case 2
    then show ?thesis using assms(3,4)
      by (simp add: fds_get_int_be_def load_ntohl scast_le_word [where 'a = 32 and 'b = 64])
  next
    case 3
    then show ?thesis using assms(3,4)
      by (simp add: fds_get_int_be_def load_ntohs scast_le_word [where 'a = 16 and 'b = 64])
  next
    case 4
    then obtain b where b: "bs = [b]" using assms(3) by (cases bs) auto
    have "scast b = signed_take_bit 7 (le_word [b] :: 64 word)"
      by (rule bit_word_eqI) (auto simp: bit_simps bit_word_scast_iff bit_le_word min_def)
    then show ?thesis using 4 assms(4) b
      by (simp add: fds_get_int_be_def load_host_1)
  next
    case 5
    have "take s field ! 0 = field ! 0" using assms(1) by (intro nth_take) simp
    moreover have "rev bs ! (s - 1) = bs ! 0" using assms(1,3) by (simp add: rev_nth)
    ultimately have f0: "field ! 0 = rev bs ! (s - 1)" using assms(4) by simp
    define c :: byte where "c = (if bit (rev bs ! (s - 1)) 7 then - 1 else 0)"
    have st: "take (8 - s) (store_host h 8 (if field ! 0 AND 0x80 \<noteq> 0 then - 1 else 0 :: 64 word))
              = replicate (8 - s) c"
      by (simp add: c_def f0 byte_sign_bit store_host_zero store_host_minus1)
    have len: "length (replicate (8 - s) c @ bs) = 8" using 5 assms(3) by auto
    have "(le_word (rev bs @ replicate (8 - s) c) :: 64 word)
          = signed_take_bit (8 * s - 1) (le_word (rev bs))"
      by (rule le_word_sign_extend) (use assms c_def in simp_all)
    then show ?thesis using 5 assms(3,4) len
      by (auto simp: fds_get_int_be_def st load_be64toh simp del: replicate_eq_replicate)
  qed
qed

lemma int_roundtrip:
  assumes "1 \<le> s" "s \<le> 8" "- (2 ^ (8 * s - 1)) \<le> sint v" "sint v < 2 ^ (8 * s - 1)"
  shows "fst (fds_set_int_be h field s v) = FDS_OK \<and>
         fds_get_int_be h (snd (fds_set_int_be h field s v)) s v0 = (FDS_OK, v)"
proof -
  have set: "fds_set_int_be h field s v = (FDS_OK, memcpy field (rev (le_bytes s v)))"
    using assms by (rule fds_set_int_be_ok)
  have len: "length (rev (le_bytes s v)) = s" by (simp add:)
  have tk: "take s (memcpy field (rev (le_bytes s v))) = rev (le_bytes s v)"
    by (simp add: memcpy_def len)
  have "signed_take_bit (8 * s - 1) (le_word (rev (rev (le_bytes s v))) :: 64 word)
        = signed_take_bit (8 * s - 1) (take_bit (8 * s) v)"
    by (simp add: le_word_le_bytes)
  also have "\<dots> = signed_take_bit (8 * s - 1) v"
    using assms(1) by (intro bit_word_eqI) (auto simp: bit_simps min_def)
  also have "\<dots> = v" using assms(3,4) by (rule sint_range_signed_take_bit)
  finally show ?thesis
    using fds_get_int_be_val [OF assms(1,2) len tk] by (simp add: set)
qed

section \<open>Claims about the integer codec\<close>

text \<open>
  C1. For every width \<open>s\<close> from 1 to 8 and on either host byte order: an unsigned value
  below \<open>2 ^ (8 * s)\<close> is stored by \<open>fds_set_uint_be\<close> with status \<open>FDS_OK\<close>, and
  \<open>fds_get_uint_be\<close> on the written bytes returns \<open>FDS_OK\<close> and that value; a signed value
  in the range of \<open>s\<close> bytes is stored by \<open>fds_set_int_be\<close> with status \<open>FDS_OK\<close> and read
  back unchanged by \<open>fds_get_int_be\<close>. The odd widths 3, 5, 6 and 7 are included.
\<close>

theorem int_codec_roundtrip:
  assumes "1 \<le> s" and "s \<le> 8"
  shows "(unat u < 2 ^ (8 * s) \<longrightarrow>
            fst (fds_set_uint_be h field s u) = FDS_OK \<and>
            fds_get_uint_be h (snd (fds_set_uint_be h field s u)) s u0 = (FDS_OK, u)) \<and>
         (- (2 ^ (8 * s - 1)) \<le> sint v \<and> sint v < 2 ^ (8 * s - 1) \<longrightarrow>
            fst (fds_set_int_be h field s v) = FDS_OK \<and>
            fds_get_int_be h (snd (fds_set_int_be h field s v)) s v0 = (FDS_OK, v))"
  using uint_roundtrip [OF assms] int_roundtrip [OF assms] by blast

theorem int_codec_roundtrip_witness:
  "(1::nat) \<le> 3 \<and> (3::nat) \<le> 8 \<and>
   unat (0x123456 :: 64 word) < 2 ^ (8 * 3) \<and>
   fst (fds_set_uint_be LittleEndian [0, 0, 0, 0] 3 0x123456) = FDS_OK \<and>
   fds_get_uint_be LittleEndian (snd (fds_set_uint_be LittleEndian [0, 0, 0, 0] 3 0x123456)) 3 0
     = (FDS_OK, 0x123456) \<and>
   - (2 ^ (8 * 3 - 1)) \<le> sint (- 2 :: 64 word) \<and> sint (- 2 :: 64 word) < 2 ^ (8 * 3 - 1) \<and>
   fst (fds_set_int_be LittleEndian [0, 0, 0, 0] 3 (- 2)) = FDS_OK \<and>
   fds_get_int_be LittleEndian (snd (fds_set_int_be LittleEndian [0, 0, 0, 0] 3 (- 2))) 3 0
     = (FDS_OK, - 2)"
proof -
  have s: "(1::nat) \<le> 3" "(3::nat) \<le> 8" by simp_all
  have u: "unat (0x123456 :: 64 word) < 2 ^ (8 * 3)" by simp
  have v: "- (2 ^ (8 * 3 - 1)) \<le> sint (- 2 :: 64 word)" "sint (- 2 :: 64 word) < 2 ^ (8 * 3 - 1)"
    by simp_all
  show ?thesis
    using int_codec_roundtrip [OF s, of "0x123456" LittleEndian "[0, 0, 0, 0]" 0 "- 2" 0] s u v
    by blast
qed

text \<open>
  C5. Storing 256 in a one-byte unsigned field returns \<open>FDS_ERR_TRUNC\<close> and writes the
  byte 255, which \<open>fds_get_uint_be\<close> then reads as 255 with \<open>FDS_OK\<close>; storing \<open>-200\<close> in a
  one-byte signed field returns \<open>FDS_ERR_TRUNC\<close> and writes the byte 0x80, which
  \<open>fds_get_int_be\<close> then reads as \<open>-128\<close> with \<open>FDS_OK\<close>.
\<close>

theorem one_byte_saturation:
  "fds_set_uint_be h field 1 256 = (FDS_ERR_TRUNC, memcpy field [255]) \<and>
   fds_get_uint_be h (snd (fds_set_uint_be h field 1 256)) 1 u0 = (FDS_OK, 255) \<and>
   fds_set_int_be h field 1 (- 200) = (FDS_ERR_TRUNC, memcpy field [0x80]) \<and>
   fds_get_int_be h (snd (fds_set_int_be h field 1 (- 200))) 1 v0 = (FDS_OK, - 128)"
proof -
  have su: "fds_set_uint_be h field 1 256 = (FDS_ERR_TRUNC, memcpy field [255])"
    by (simp add: fds_set_uint_be_def store_host_1)
  have si: "fds_set_int_be h field 1 (- 200) = (FDS_ERR_TRUNC, memcpy field [0x80])"
    by (simp add: fds_set_int_be_def store_host_1 word_sless_alt)
  have gu: "fds_get_uint_be h (memcpy field [255]) 1 u0 = (FDS_OK, 255)"
    by (simp add: fds_get_uint_be_def load_host_1 memcpy_def)
  have gi: "fds_get_int_be h (memcpy field [0x80]) 1 v0 = (FDS_OK, - 128)"
    by (simp add: fds_get_int_be_def load_host_1 memcpy_def)
  show ?thesis by (simp only: su si gu gi snd_conv simp_thms)
qed


section \<open>Claims about the timestamp codec\<close>

lemma le_word_le_bytes32: "le_word (le_bytes 4 (w :: 32 word)) = w"
  by (simp add: le_word_le_bytes take_bit_word_eq_self)

lemma le_bytes_0: "le_bytes 0 w = []"
  by (simp add: le_bytes_def)

lemma le_bytes_Suc: "le_bytes (Suc n) w = ucast w # le_bytes n (drop_bit 8 w)"
proof -
  have "[0..<Suc n] = 0 # map Suc [0..<n]"
    by (simp add: upt_conv_Cons map_Suc_upt del: upt_Suc)
  then show ?thesis
    by (simp add: le_bytes_def comp_def drop_bit_drop_bit add.commute del: upt_Suc)
qed

lemma le_bytes_4:
  "le_bytes 4 w = [ucast w, ucast (drop_bit 8 w), ucast (drop_bit 16 w), ucast (drop_bit 24 w)]"
  by (simp add: eval_nat_numeral le_bytes_Suc le_bytes_0 drop_bit_drop_bit)

lemma ntp_wire_parts:
  assumes "length a = 4" "length b = 4"
  shows "take 4 (memcpy_at (memcpy_at field 0 a) 4 b) = a"
    and "take 4 (drop 4 (memcpy_at (memcpy_at field 0 a) 4 b)) = b"
  using assms by (simp_all add: memcpy_at_def)

lemma fds_set_datetime_hp_be_ntp:
  assumes "type = FDS_ET_DATE_TIME_MICROSECONDS \<or> type = FDS_ET_DATE_TIME_NANOSECONDS"
  shows "fds_set_datetime_hp_be h field 8 type ts =
    (FDS_OK,
     memcpy_at
       (memcpy_at field 0
          (rev (le_bytes 4 (ucast ((ucast (ucast (tv_sec ts) :: 32 word) :: 64 word)
                                      + FDS_CONVERT_EPOCHS_DIFF) :: 32 word))))
       4
       (rev (le_bytes 4
          (if type = FDS_ET_DATE_TIME_MICROSECONDS
           then (ucast (push_bit 32 (tv_nsec ts) div 1000000000) :: 32 word) AND 0xFFFFF800
           else ucast (push_bit 32 (tv_nsec ts) div 1000000000)))))"
  using assms
  by (rule disjE) (simp_all add: fds_set_datetime_hp_be_def datetime_bad_size_def Let_def
      store_htonl)

lemma fds_get_datetime_hp_be_ntp:
  assumes "type = FDS_ET_DATE_TIME_MICROSECONDS \<or> type = FDS_ET_DATE_TIME_NANOSECONDS"
    and "take 4 field = rev (le_bytes 4 (p0 :: 32 word))"
    and "take 4 (drop 4 field) = rev (le_bytes 4 (p1 :: 32 word))"
  shows "fds_get_datetime_hp_be h field 8 type ts =
    (FDS_OK,
     ts\<lparr>tv_sec := ucast p0 - FDS_CONVERT_EPOCHS_DIFF,
        tv_nsec :=
          (let fraction = (if type = FDS_ET_DATE_TIME_MICROSECONDS
                           then ucast p1 AND 0xFFFFF800 else ucast p1);
               fraction = drop_bit 31 (fraction * 1000000000);
               fraction = (if fraction AND 1 \<noteq> 0 then fraction + 1 else fraction)
           in drop_bit 1 fraction)\<rparr>)"
proof -
  have ld: "ntohl h (load_host h (rev (le_bytes 4 p0))) = p0"
    "ntohl h (load_host h (rev (le_bytes 4 p1))) = p1"
    by (simp_all add: load_ntohl le_word_le_bytes32)
  from assms(1) show ?thesis
    by (rule disjE) (simp_all add: fds_get_datetime_hp_be_def datetime_bad_size_def Let_def
        assms(2,3) ld)
qed

text \<open>
  C2. With type \<open>FDS_ET_DATE_TIME_NANOSECONDS\<close> and size 8, \<open>fds_set_datetime_hp_be\<close>
  stores the pair (1234567890 s, 500000000 ns) as the NTP timestamp
  \<open>CD 40 81 52 80 00 00 00\<close> with status \<open>FDS_OK\<close>, and \<open>fds_get_datetime_hp_be\<close> on these
  bytes returns \<open>FDS_OK\<close> and exactly the same pair.
\<close>

theorem ntp_nanoseconds_example:
  "fds_set_datetime_hp_be h field 8 FDS_ET_DATE_TIME_NANOSECONDS
      \<lparr>tv_sec = 1234567890, tv_nsec = 500000000\<rparr>
     = (FDS_OK, [0xCD, 0x40, 0x81, 0x52, 0x80, 0, 0, 0] @ drop 8 field) \<and>
   fds_get_datetime_hp_be h
      (snd (fds_set_datetime_hp_be h field 8 FDS_ET_DATE_TIME_NANOSECONDS
              \<lparr>tv_sec = 1234567890, tv_nsec = 500000000\<rparr>))
      8 FDS_ET_DATE_TIME_NANOSECONDS ts
     = (FDS_OK, ts\<lparr>tv_sec := 1234567890, tv_nsec := 500000000\<rparr>)"
proof -
  have set: "fds_set_datetime_hp_be h field 8 FDS_ET_DATE_TIME_NANOSECONDS
      \<lparr>tv_sec = 1234567890, tv_nsec = 500000000\<rparr>
     = (FDS_OK, [0xCD, 0x40, 0x81, 0x52, 0x80, 0, 0, 0] @ drop 8 field)"
    by (simp add: fds_set_datetime_hp_be_ntp memcpy_at_def le_bytes_4)
  have get: "fds_get_datetime_hp_be h ([0xCD, 0x40, 0x81, 0x52, 0x80, 0, 0, 0] @ drop 8 field)
      8 FDS_ET_DATE_TIME_NANOSECONDS ts
     = (FDS_OK, ts\<lparr>tv_sec := 1234567890, tv_nsec := 500000000\<rparr>)"
    by (subst fds_get_datetime_hp_be_ntp [where ?p0.0 = "0xCD408152" and ?p1.0 = "0x80000000"])
      (simp_all add: le_bytes_4)
  show ?thesis by (simp only: set get snd_conv simp_thms)
qed

theorem ntp_nanoseconds_example_witness:
  "fds_set_datetime_hp_be LittleEndian [0, 0, 0, 0, 0, 0, 0, 0] 8 FDS_ET_DATE_TIME_NANOSECONDS
      \<lparr>tv_sec = 1234567890, tv_nsec = 500000000\<rparr>
     = (FDS_OK, [0xCD, 0x40, 0x81, 0x52, 0x80, 0, 0, 0]) \<and>
   fds_get_datetime_hp_be LittleEndian
      (snd (fds_set_datetime_hp_be LittleEndian [0, 0, 0, 0, 0, 0, 0, 0] 8
              FDS_ET_DATE_TIME_NANOSECONDS \<lparr>tv_sec = 1234567890, tv_nsec = 500000000\<rparr>))
      8 FDS_ET_DATE_TIME_NANOSECONDS \<lparr>tv_sec = 0, tv_nsec = 0\<rparr>
     = (FDS_OK, \<lparr>tv_sec = 1234567890, tv_nsec = 500000000\<rparr>)"
proof -
  note ex = ntp_nanoseconds_example [of LittleEndian "[0, 0, 0, 0, 0, 0, 0, 0]"
      "\<lparr>tv_sec = 0, tv_nsec = 0\<rparr>"]
  from ex [THEN conjunct1] have "fds_set_datetime_hp_be LittleEndian [0, 0, 0, 0, 0, 0, 0, 0] 8
      FDS_ET_DATE_TIME_NANOSECONDS \<lparr>tv_sec = 1234567890, tv_nsec = 500000000\<rparr>
     = (FDS_OK, [0xCD, 0x40, 0x81, 0x52, 0x80, 0, 0, 0])"
    by simp
  moreover from ex [THEN conjunct2] have "fds_get_datetime_hp_be LittleEndian
      (snd (fds_set_datetime_hp_be LittleEndian [0, 0, 0, 0, 0, 0, 0, 0] 8
              FDS_ET_DATE_TIME_NANOSECONDS \<lparr>tv_sec = 1234567890, tv_nsec = 500000000\<rparr>))
      8 FDS_ET_DATE_TIME_NANOSECONDS \<lparr>tv_sec = 0, tv_nsec = 0\<rparr>
     = (FDS_OK, \<lparr>tv_sec = 1234567890, tv_nsec = 500000000\<rparr>)"
    by simp
  ultimately show ?thesis by (rule conjI)
qed

lemma sint_nonneg_uint:
  fixes w :: "'a::len word"
  assumes "0 \<le> sint w"
  shows "sint w = uint w"
proof -
  have nb: "\<not> bit w (LENGTH('a) - Suc 0)" using assms by (simp add: bit_last_iff)
  then have "\<not> bit (uint w) (LENGTH('a) - Suc 0)" by (simp add: bit_uint_iff)
  then have "sint w = take_bit (LENGTH('a) - Suc 0) (uint w)"
    by (simp add: sint_uint signed_take_bit_eq_if_positive)
  also have "\<dots> = uint w"
  proof (rule bit_eqI)
    fix k
    show "bit (take_bit (LENGTH('a) - Suc 0) (uint w)) k = bit (uint w) k"
      using nb bit_imp_le_length [of w k]
      by (cases "k = LENGTH('a) - Suc 0") (auto simp: bit_simps bit_uint_iff)
  qed
  finally show ?thesis .
qed

lemma usec_mask32: "(w :: 32 word) AND 0xFFFFF800 = push_bit 11 (drop_bit 11 w)"
proof -
  have c: "(0xFFFFF800 :: 32 word) = NOT (mask 11)" by (simp add: mask_eq_exp_minus_1)
  show ?thesis
    unfolding c by (rule bit_word_eqI) (auto simp: bit_simps)
qed

lemma usec_mask64: "(ucast (w :: 32 word) :: 64 word) AND 0xFFFFF800 = ucast (w AND 0xFFFFF800)"
proof -
  have c: "(0xFFFFF800 :: 32 word) = NOT (mask 11)" by (simp add: mask_eq_exp_minus_1)
  have d: "(0xFFFFF800 :: 64 word) = push_bit 11 (mask 21)" by (simp add: mask_eq_exp_minus_1)
  show ?thesis
    unfolding c d by (rule bit_word_eqI) (auto simp: bit_simps)
qed

lemma usec_arith:
  fixes n :: nat
  assumes "n \<le> 999999999"
  defines "f \<equiv> (n * 2 ^ 32) div 1000000000"
  defines "F \<equiv> 2048 * (f div 2048)"
  defines "y \<equiv> (F * 1000000000) div 2 ^ 31"
  defines "r \<equiv> (if odd y then y + 1 else y) div 2"
  shows "r \<le> n \<and> n \<le> r + 1000"
proof -
  have f1: "1000000000 * f \<le> n * 4294967296" and f2: "n * 4294967296 < 1000000000 * f + 1000000000"
    unfolding f_def
    using times_div_less_eq_dividend [of 1000000000 "n * 2 ^ 32"]
      dividend_less_times_div [of 1000000000 "n * 2 ^ 32"] by simp_all
  have F1: "F \<le> f" and F2: "f < F + 2048"
    unfolding F_def
    using times_div_less_eq_dividend [of 2048 f] dividend_less_times_div [of 2048 f] by simp_all
  have y1: "2147483648 * y \<le> F * 1000000000" and y2: "F * 1000000000 < 2147483648 * y + 2147483648"
    unfolding y_def
    using times_div_less_eq_dividend [of 2147483648 "F * 1000000000"]
      dividend_less_times_div [of 2147483648 "F * 1000000000"] by simp_all
  have r1: "2 * r \<le> y + 1" and r2: "y \<le> 2 * r" and r3: "even y \<Longrightarrow> 2 * r = y"
    unfolding r_def by (auto elim: oddE)
  have "y \<le> 2 * n" using f1 F1 y1 by linarith
  then have "r \<le> n" using r1 r3 by (cases "even y") (auto elim: oddE)
  moreover have "2 * n \<le> y + 955" using f2 F2 y2 by linarith
  then have "n \<le> r + 1000" using r2 by linarith
  ultimately show ?thesis by simp
qed



lemma usec_decode_unat:
  fixes nsec :: "64 word"
  assumes n: "unat nsec \<le> 999999999"
  defines "F32 \<equiv> (ucast (push_bit 32 nsec div 1000000000) :: 32 word) AND 0xFFFFF800"
  defines "y \<equiv> drop_bit 31 ((ucast F32 AND 0xFFFFF800) * (1000000000 :: 64 word))"
  defines "res \<equiv> drop_bit 1 (if y AND 1 \<noteq> 0 then y + 1 else y)"
  shows "unat res \<le> unat nsec \<and> unat nsec \<le> unat res + 1000"
proof -
  define f where "f = (unat nsec * 2 ^ 32) div 1000000000"
  define F where "F = 2048 * (f div 2048)"
  define yn where "yn = (F * 1000000000) div 2 ^ 31"
  have pn: "push_bit k m = m * 2 ^ k" and dn: "drop_bit k m = m div 2 ^ k" for k and m :: nat
    by (simp_all add: push_bit_eq_mult drop_bit_eq_div)
  have "unat nsec * 2 ^ 32 < 2 ^ 64" using n by simp
  then have "unat (push_bit 32 nsec) = unat nsec * 2 ^ 32"
    using unat_mult_lem [of nsec 4294967296] by (simp add: push_bit_eq_mult)
  then have A: "unat (push_bit 32 nsec div 1000000000) = f"
    by (simp add: unat_div f_def)
  have flt: "f < 2 ^ 32" using n unfolding f_def by simp
  then have a32: "unat (ucast (push_bit 32 nsec div 1000000000) :: 32 word) = f"
    by (simp add: unsigned_ucast_eq A take_bit_nat_eq_self)
  have Fle: "F \<le> f" unfolding F_def using times_div_less_eq_dividend [of 2048 f] by simp
  then have Flt: "F < 2 ^ 32" using flt by simp
  have F32: "unat F32 = F"
    unfolding F32_def usec_mask32
    using Flt by (simp add: unsigned_push_bit_eq unat_drop_bit_eq a32 pn dn F_def
        take_bit_nat_eq_self)
  have fr: "ucast F32 AND (0xFFFFF800 :: 64 word) = ucast F32"
    unfolding usec_mask64 F32_def by (simp add: and.assoc)
  have ufr: "unat (ucast F32 :: 64 word) = F"
    using Flt by (simp add: unsigned_ucast_eq F32 take_bit_nat_eq_self)
  have "F * 1000000000 < 2 ^ 64" using Flt by simp
  then have "unat ((ucast F32 :: 64 word) * 1000000000) = F * 1000000000"
    using unat_mult_lem [of "ucast F32 :: 64 word" 1000000000] by (simp add: ufr)
  then have y: "unat y = yn"
    unfolding y_def fr yn_def by (simp add: unat_drop_bit_eq dn)
  have ylt: "yn < 2 ^ 63" using Flt unfolding yn_def by simp
  have "unat (y AND 1) = yn mod 2"
    by (simp add: and_one_eq unat_mod y)
  then have odd: "y AND 1 \<noteq> 0 \<longleftrightarrow> odd yn"
    by (simp add: word_unat_eq_iff [of "y AND 1" 0] odd_iff_mod_2_eq_one)
  have y1: "unat (y + 1) = yn + 1"
    using ylt unat_add_lem [of y 1] by (simp add: y)
  have "unat res = (if odd yn then yn + 1 else yn) div 2"
    unfolding res_def by (simp add: odd unat_drop_bit_eq dn y y1)
  then show ?thesis
    using usec_arith [OF n] unfolding f_def F_def yn_def by simp
qed



lemma sint_small_uint:
  fixes w :: "64 word"
  assumes "uint w < 2 ^ 63"
  shows "sint w = uint w"
proof -
  have "- (2 ^ 63) \<le> uint w" by (rule order_trans [of _ 0]) simp_all
  then have "signed_take_bit 63 (uint w) = uint w"
    using assms by (simp add: signed_take_bit_int_eq_self)
  then show ?thesis by (simp add: sint_uint)
qed

text \<open>
  C4, as the code has it. For every timespec whose \<open>tv_nsec\<close> lies in [0, 999999999],
  encoding with \<open>fds_set_datetime_hp_be\<close> and decoding with \<open>fds_get_datetime_hp_be\<close>, both
  with type \<open>FDS_ET_DATE_TIME_MICROSECONDS\<close> and size 8, returns \<open>FDS_OK\<close> twice, and the
  decoded \<open>tv_nsec\<close> differs from the original by at most 1000 nanoseconds. The decoded
  value need not be a multiple of 1000: the encoder clears the low 11 bits of the binary
  fraction, and the decoder rounds that fraction to nanoseconds.
\<close>

theorem usec_roundtrip_within_1000:
  assumes "0 \<le> sint (tv_nsec ts)" and "sint (tv_nsec ts) \<le> 999999999"
  shows "fst (fds_set_datetime_hp_be h field 8 FDS_ET_DATE_TIME_MICROSECONDS ts) = FDS_OK \<and>
         fst (fds_get_datetime_hp_be h
                (snd (fds_set_datetime_hp_be h field 8 FDS_ET_DATE_TIME_MICROSECONDS ts))
                8 FDS_ET_DATE_TIME_MICROSECONDS ts0) = FDS_OK \<and>
         \<bar>sint (tv_nsec (snd (fds_get_datetime_hp_be h
                (snd (fds_set_datetime_hp_be h field 8 FDS_ET_DATE_TIME_MICROSECONDS ts))
                8 FDS_ET_DATE_TIME_MICROSECONDS ts0))) - sint (tv_nsec ts)\<bar> \<le> 1000"
proof -
  define p0 :: "32 word" where
    "p0 = ucast ((ucast (ucast (tv_sec ts) :: 32 word) :: 64 word) + FDS_CONVERT_EPOCHS_DIFF)"
  define p1 :: "32 word" where
    "p1 = (ucast (push_bit 32 (tv_nsec ts) div 1000000000) :: 32 word) AND 0xFFFFF800"
  define wire where
    "wire = memcpy_at (memcpy_at field 0 (rev (le_bytes 4 p0))) 4 (rev (le_bytes 4 p1))"
  define y where "y = drop_bit 31 ((ucast p1 AND 0xFFFFF800) * (1000000000 :: 64 word))"
  define res where "res = drop_bit 1 (if y AND 1 \<noteq> 0 then y + 1 else y)"
  have set: "fds_set_datetime_hp_be h field 8 FDS_ET_DATE_TIME_MICROSECONDS ts = (FDS_OK, wire)"
    by (simp add: fds_set_datetime_hp_be_ntp wire_def p0_def p1_def)
  have parts: "take 4 wire = rev (le_bytes 4 p0)" "take 4 (drop 4 wire) = rev (le_bytes 4 p1)"
    unfolding wire_def by (rule ntp_wire_parts; simp)+
  have get: "fds_get_datetime_hp_be h wire 8 FDS_ET_DATE_TIME_MICROSECONDS ts0
             = (FDS_OK, ts0\<lparr>tv_sec := ucast p0 - FDS_CONVERT_EPOCHS_DIFF, tv_nsec := res\<rparr>)"
    by (subst fds_get_datetime_hp_be_ntp [OF _ parts]) (simp_all add: Let_def res_def y_def)
  have sn: "sint (tv_nsec ts) = uint (tv_nsec ts)"
    using assms(1) by (rule sint_nonneg_uint)
  then have "uint (tv_nsec ts) \<le> 999999999" using assms(2) by simp
  then have n: "unat (tv_nsec ts) \<le> 999999999"
    unfolding unat_eq_nat_uint by linarith
  have "unat res \<le> unat (tv_nsec ts) \<and> unat (tv_nsec ts) \<le> unat res + 1000"
    using usec_decode_unat [OF n] unfolding res_def y_def p1_def by simp
  then have "int (unat res) \<le> int (unat (tv_nsec ts))"
    and "int (unat (tv_nsec ts)) \<le> int (unat res) + 1000"
    by linarith+
  then have bounds: "uint res \<le> uint (tv_nsec ts)" "uint (tv_nsec ts) \<le> uint res + 1000"
    by simp_all
  then have "uint res < 2 ^ 63" using assms(2) sn by simp
  then have sr: "sint res = uint res" by (rule sint_small_uint)
  show ?thesis
    using bounds by (simp add: set get sn sr)
qed

theorem usec_roundtrip_within_1000_witness:
  "0 \<le> sint (tv_nsec \<lparr>tv_sec = 0, tv_nsec = 1000\<rparr>) \<and>
   sint (tv_nsec \<lparr>tv_sec = 0, tv_nsec = 1000\<rparr>) \<le> 999999999 \<and>
   fst (fds_set_datetime_hp_be LittleEndian [0, 0, 0, 0, 0, 0, 0, 0] 8
          FDS_ET_DATE_TIME_MICROSECONDS \<lparr>tv_sec = 0, tv_nsec = 1000\<rparr>) = FDS_OK \<and>
   fst (fds_get_datetime_hp_be LittleEndian
          (snd (fds_set_datetime_hp_be LittleEndian [0, 0, 0, 0, 0, 0, 0, 0] 8
                  FDS_ET_DATE_TIME_MICROSECONDS \<lparr>tv_sec = 0, tv_nsec = 1000\<rparr>))
          8 FDS_ET_DATE_TIME_MICROSECONDS \<lparr>tv_sec = 0, tv_nsec = 0\<rparr>) = FDS_OK \<and>
   \<bar>sint (tv_nsec (snd (fds_get_datetime_hp_be LittleEndian
          (snd (fds_set_datetime_hp_be LittleEndian [0, 0, 0, 0, 0, 0, 0, 0] 8
                  FDS_ET_DATE_TIME_MICROSECONDS \<lparr>tv_sec = 0, tv_nsec = 1000\<rparr>))
          8 FDS_ET_DATE_TIME_MICROSECONDS \<lparr>tv_sec = 0, tv_nsec = 0\<rparr>)))
     - sint (tv_nsec \<lparr>tv_sec = 0, tv_nsec = 1000\<rparr>)\<bar> \<le> 1000"
proof -
  have a: "0 \<le> sint (tv_nsec \<lparr>tv_sec = 0, tv_nsec = 1000\<rparr>)"
    and b: "sint (tv_nsec \<lparr>tv_sec = 0, tv_nsec = 1000\<rparr>) \<le> 999999999"
    by simp_all
  show ?thesis
    using a b usec_roundtrip_within_1000 [OF a b, of LittleEndian "[0, 0, 0, 0, 0, 0, 0, 0]"
        "\<lparr>tv_sec = 0, tv_nsec = 0\<rparr>"]
    by blast
qed

text \<open>
  C4, as stated, fails: 1000 nanoseconds are stored as the fraction \<open>00 00 10 00\<close> and
  decoded as 954 nanoseconds, which is not a multiple of 1000.
\<close>

theorem usec_not_multiple_counterexample:
  "tv_nsec (snd (fds_get_datetime_hp_be LittleEndian
      (snd (fds_set_datetime_hp_be LittleEndian [0, 0, 0, 0, 0, 0, 0, 0] 8
              FDS_ET_DATE_TIME_MICROSECONDS \<lparr>tv_sec = 0, tv_nsec = 1000\<rparr>))
      8 FDS_ET_DATE_TIME_MICROSECONDS \<lparr>tv_sec = 0, tv_nsec = 0\<rparr>)) = 954
   \<and> \<not> (1000 :: int) dvd sint (tv_nsec (snd (fds_get_datetime_hp_be LittleEndian
      (snd (fds_set_datetime_hp_be LittleEndian [0, 0, 0, 0, 0, 0, 0, 0] 8
              FDS_ET_DATE_TIME_MICROSECONDS \<lparr>tv_sec = 0, tv_nsec = 1000\<rparr>))
      8 FDS_ET_DATE_TIME_MICROSECONDS \<lparr>tv_sec = 0, tv_nsec = 0\<rparr>)))"
proof -
  have set: "fds_set_datetime_hp_be LittleEndian [0, 0, 0, 0, 0, 0, 0, 0] 8
              FDS_ET_DATE_TIME_MICROSECONDS \<lparr>tv_sec = 0, tv_nsec = 1000\<rparr>
            = (FDS_OK, [0x83, 0xAA, 0x7E, 0x80, 0x00, 0x00, 0x10, 0x00])"
    by (simp add: fds_set_datetime_hp_be_ntp memcpy_at_def le_bytes_4)
  have get: "fds_get_datetime_hp_be LittleEndian [0x83, 0xAA, 0x7E, 0x80, 0x00, 0x00, 0x10, 0x00]
              8 FDS_ET_DATE_TIME_MICROSECONDS \<lparr>tv_sec = 0, tv_nsec = 0\<rparr>
            = (FDS_OK, \<lparr>tv_sec = 0, tv_nsec = 954\<rparr>)"
    by (subst fds_get_datetime_hp_be_ntp [where ?p0.0 = "0x83AA7E80" and ?p1.0 = "0x00001000"])
      (simp_all add: le_bytes_4)
  show ?thesis by (simp add: set get)
qed

lemma set_lp_guard:
  "(fst (fds_set_datetime_lp_be h field sz type v) = FDS_OK \<longleftrightarrow> datetime_size_legal sz type) \<and>
   (\<not> datetime_size_legal sz type \<longrightarrow> fds_set_datetime_lp_be h field sz type v = (FDS_ERR_ARG, field))"
  by (auto simp: fds_set_datetime_lp_be_def datetime_bad_size_def datetime_size_legal_def Let_def)

lemma set_hp_guard:
  "(fst (fds_set_datetime_hp_be h field sz type ts) = FDS_OK \<longleftrightarrow> datetime_size_legal sz type) \<and>
   (\<not> datetime_size_legal sz type \<longrightarrow> fds_set_datetime_hp_be h field sz type ts = (FDS_ERR_ARG, field))"
  by (auto simp: fds_set_datetime_hp_be_def datetime_bad_size_def datetime_size_legal_def Let_def)

lemma get_lp_guard:
  "(fst (fds_get_datetime_lp_be h field sz type v) = FDS_OK \<longleftrightarrow> datetime_size_legal sz type) \<and>
   (\<not> datetime_size_legal sz type \<longrightarrow> fds_get_datetime_lp_be h field sz type v = (FDS_ERR_ARG, v))"
  by (auto simp: fds_get_datetime_lp_be_def datetime_bad_size_def datetime_size_legal_def Let_def)

lemma get_hp_guard:
  "(fst (fds_get_datetime_hp_be h field sz type ts) = FDS_OK \<longleftrightarrow> datetime_size_legal sz type) \<and>
   (\<not> datetime_size_legal sz type \<longrightarrow> fds_get_datetime_hp_be h field sz type ts = (FDS_ERR_ARG, ts))"
  by (auto simp: fds_get_datetime_hp_be_def datetime_bad_size_def datetime_size_legal_def Let_def)

text \<open>
  C7. Each of \<open>fds_set_datetime_lp_be\<close>, \<open>fds_set_datetime_hp_be\<close>, \<open>fds_get_datetime_lp_be\<close>
  and \<open>fds_get_datetime_hp_be\<close> returns \<open>FDS_OK\<close> exactly for type
  \<open>FDS_ET_DATE_TIME_SECONDS\<close> with size 4 and for the milli-, micro- and nanosecond types
  with size 8. Every other combination of size and type returns \<open>FDS_ERR_ARG\<close>, the setters
  leaving the field and the getters leaving the out-parameter as they were.
\<close>

theorem datetime_size_type_guard:
  "(fst (fds_set_datetime_lp_be h field sz type v) = FDS_OK \<longleftrightarrow> datetime_size_legal sz type) \<and>
   (fst (fds_set_datetime_hp_be h field sz type ts) = FDS_OK \<longleftrightarrow> datetime_size_legal sz type) \<and>
   (fst (fds_get_datetime_lp_be h field sz type v0) = FDS_OK \<longleftrightarrow> datetime_size_legal sz type) \<and>
   (fst (fds_get_datetime_hp_be h field sz type ts0) = FDS_OK \<longleftrightarrow> datetime_size_legal sz type) \<and>
   (\<not> datetime_size_legal sz type \<longrightarrow>
      fds_set_datetime_lp_be h field sz type v = (FDS_ERR_ARG, field) \<and>
      fds_set_datetime_hp_be h field sz type ts = (FDS_ERR_ARG, field) \<and>
      fds_get_datetime_lp_be h field sz type v0 = (FDS_ERR_ARG, v0) \<and>
      fds_get_datetime_hp_be h field sz type ts0 = (FDS_ERR_ARG, ts0))"
  using set_lp_guard [of h field sz type v] set_hp_guard [of h field sz type ts]
    get_lp_guard [of h field sz type v0] get_hp_guard [of h field sz type ts0]
  by blast

theorem datetime_size_type_guard_witness:
  "\<not> datetime_size_legal 8 FDS_ET_DATE_TIME_SECONDS \<and>
   fds_set_datetime_lp_be BigEndian [1, 2, 3, 4, 5, 6, 7, 8] 8 FDS_ET_DATE_TIME_SECONDS 5000
     = (FDS_ERR_ARG, [1, 2, 3, 4, 5, 6, 7, 8]) \<and>
   fds_set_datetime_hp_be BigEndian [1, 2, 3, 4, 5, 6, 7, 8] 8 FDS_ET_DATE_TIME_SECONDS
       \<lparr>tv_sec = 5, tv_nsec = 0\<rparr>
     = (FDS_ERR_ARG, [1, 2, 3, 4, 5, 6, 7, 8]) \<and>
   fds_get_datetime_lp_be BigEndian [1, 2, 3, 4, 5, 6, 7, 8] 8 FDS_ET_DATE_TIME_SECONDS 77
     = (FDS_ERR_ARG, 77) \<and>
   fds_get_datetime_hp_be BigEndian [1, 2, 3, 4, 5, 6, 7, 8] 8 FDS_ET_DATE_TIME_SECONDS
       \<lparr>tv_sec = 7, tv_nsec = 9\<rparr>
     = (FDS_ERR_ARG, \<lparr>tv_sec = 7, tv_nsec = 9\<rparr>)"
proof -
  have nl: "\<not> datetime_size_legal 8 FDS_ET_DATE_TIME_SECONDS"
    by (simp add: datetime_size_legal_def)
  show ?thesis
    using nl datetime_size_type_guard [of BigEndian "[1, 2, 3, 4, 5, 6, 7, 8]" 8
        FDS_ET_DATE_TIME_SECONDS 5000 "\<lparr>tv_sec = 5, tv_nsec = 0\<rparr>" 77 "\<lparr>tv_sec = 7, tv_nsec = 9\<rparr>"]
    by blast
qed

section \<open>Claims about argument errors and dispatch\<close>

text \<open>
  C8. With size 0 or a size above 8, \<open>fds_set_uint_be\<close> and \<open>fds_set_int_be\<close> return
  \<open>FDS_ERR_ARG\<close>; with a size other than 4 and 8, so does \<open>fds_set_float_be\<close>. In each
  case the memory of the field after the call is the memory before it.
\<close>

theorem setters_bad_size_unchanged:
  "(sz = 0 \<or> sz > 8 \<longrightarrow>
      fds_set_uint_be h field sz u = (FDS_ERR_ARG, field) \<and>
      fds_set_int_be h field sz v = (FDS_ERR_ARG, field)) \<and>
   (sz \<noteq> 4 \<and> sz \<noteq> 8 \<longrightarrow> fds_set_float_be fp h field sz d = (FDS_ERR_ARG, field))"
  by (auto simp: fds_set_uint_be_def fds_set_int_be_def fds_set_float_be_def)

theorem setters_bad_size_unchanged_witness:
  "((9::nat) = 0 \<or> (9::nat) > 8) \<and>
   fds_set_uint_be LittleEndian [1, 2, 3, 4, 5, 6, 7, 8, 9] 9 1 = (FDS_ERR_ARG, [1, 2, 3, 4, 5, 6, 7, 8, 9]) \<and>
   fds_set_int_be LittleEndian [1, 2, 3, 4, 5, 6, 7, 8, 9] 9 (- 1) = (FDS_ERR_ARG, [1, 2, 3, 4, 5, 6, 7, 8, 9]) \<and>
   (9::nat) \<noteq> 4 \<and> (9::nat) \<noteq> 8 \<and>
   fds_set_float_be
      \<lparr>dbl_bits = (\<lambda>d. d), dbl_to_flt_bits = ucast, lt_neg_flt_max = (\<lambda>d. False),
       gt_flt_max = (\<lambda>d. False), isnormal = (\<lambda>d. True),
       flt_max_bits = 0x7F7FFFFF, neg_flt_max_bits = 0xFF7FFFFF\<rparr>
      LittleEndian [1, 2, 3, 4, 5, 6, 7, 8, 9] 9 (0 :: 64 word)
     = (FDS_ERR_ARG, [1, 2, 3, 4, 5, 6, 7, 8, 9])"
proof -
  have a: "(9::nat) = 0 \<or> (9::nat) > 8" and b: "(9::nat) \<noteq> 4 \<and> (9::nat) \<noteq> 8" by simp_all
  show ?thesis
    using a b setters_bad_size_unchanged [of 9 LittleEndian "[1, 2, 3, 4, 5, 6, 7, 8, 9]" 1 "- 1"
        "\<lparr>dbl_bits = (\<lambda>d. d), dbl_to_flt_bits = ucast, lt_neg_flt_max = (\<lambda>d. False),
          gt_flt_max = (\<lambda>d. False), isnormal = (\<lambda>d. True),
          flt_max_bits = 0x7F7FFFFF, neg_flt_max_bits = 0xFF7FFFFF\<rparr>" "0 :: 64 word"]
    by blast
qed

text \<open>
  C9. The conversion table has 20 entries. For every tag from 20 on, which includes the
  list types, \<open>fds_field2str_be\<close> returns \<open>FDS_ERR_FORMAT\<close> and leaves the output buffer
  alone, whatever the field, the sizes and the buffer are. For every tag below 20 it
  returns what the table entry of that tag returns, and the entry is the renderer of the
  tag's type.
\<close>

theorem field2str_dispatch:
  "(type \<ge> 20 \<longrightarrow>
      fds_field2str_be R h field sz type str str_size = (Inl FDS_ERR_FORMAT, str)) \<and>
   (type < 20 \<longrightarrow>
      fds_field2str_be R h field sz type str str_size = (table R h ! type) field sz str str_size) \<and>
   length (table R h) = 20 \<and>
   (type = FDS_ET_OCTET_ARRAY \<longrightarrow> table R h ! type = fds_octet_array2str R) \<and>
   (FDS_ET_UNSIGNED_8 \<le> type \<and> type \<le> FDS_ET_UNSIGNED_64 \<longrightarrow> table R h ! type = fds_uint2str_be R) \<and>
   (FDS_ET_SIGNED_8 \<le> type \<and> type \<le> FDS_ET_SIGNED_64 \<longrightarrow> table R h ! type = fds_int2str_be R) \<and>
   (FDS_ET_FLOAT_32 \<le> type \<and> type \<le> FDS_ET_FLOAT_64 \<longrightarrow> table R h ! type = fds_float2str_be R) \<and>
   (type = FDS_ET_BOOLEAN \<longrightarrow> table R h ! type = wrapper_bool R) \<and>
   (type = FDS_ET_MAC_ADDRESS \<longrightarrow> table R h ! type = fds_mac2str R) \<and>
   (type = FDS_ET_STRING \<longrightarrow> table R h ! type = fds_string2str h) \<and>
   (type = FDS_ET_DATE_TIME_SECONDS \<longrightarrow> table R h ! type = wrapper_ts_sec_be R) \<and>
   (type = FDS_ET_DATE_TIME_MILLISECONDS \<longrightarrow> table R h ! type = wrapper_ts_msec_be R) \<and>
   (type = FDS_ET_DATE_TIME_MICROSECONDS \<longrightarrow> table R h ! type = wrapper_ts_usec_be R) \<and>
   (type = FDS_ET_DATE_TIME_NANOSECONDS \<longrightarrow> table R h ! type = wrapper_ts_nsec_be R) \<and>
   (type = FDS_ET_IPV4_ADDRESS \<longrightarrow> table R h ! type = wrapper_ip4 R) \<and>
   (type = FDS_ET_IPV6_ADDRESS \<longrightarrow> table R h ! type = wrapper_ip6 R)"
proof -
  have len: "length (table R h) = 20" by (simp add: table_def)
  have u: "1 \<le> type \<and> type \<le> 4 \<longrightarrow> type = 1 \<or> type = 2 \<or> type = 3 \<or> type = 4"
    and i: "5 \<le> type \<and> type \<le> 8 \<longrightarrow> type = 5 \<or> type = 6 \<or> type = 7 \<or> type = 8"
    and f: "9 \<le> type \<and> type \<le> 10 \<longrightarrow> type = 9 \<or> type = 10"
    by linarith+
  have d: "(type \<ge> 20 \<longrightarrow>
      fds_field2str_be R h field sz type str str_size = (Inl FDS_ERR_FORMAT, str)) \<and>
   (type < 20 \<longrightarrow>
      fds_field2str_be R h field sz type str str_size = (table R h ! type) field sz str str_size)"
    by (simp add: fds_field2str_be_def len)
  have t: "(type = 0 \<longrightarrow> table R h ! type = fds_octet_array2str R)"
    "(type = 1 \<or> type = 2 \<or> type = 3 \<or> type = 4 \<longrightarrow> table R h ! type = fds_uint2str_be R)"
    "(type = 5 \<or> type = 6 \<or> type = 7 \<or> type = 8 \<longrightarrow> table R h ! type = fds_int2str_be R)"
    "(type = 9 \<or> type = 10 \<longrightarrow> table R h ! type = fds_float2str_be R)"
    "(type = 11 \<longrightarrow> table R h ! type = wrapper_bool R)"
    "(type = 12 \<longrightarrow> table R h ! type = fds_mac2str R)"
    "(type = 13 \<longrightarrow> table R h ! type = fds_string2str h)"
    "(type = 14 \<longrightarrow> table R h ! type = wrapper_ts_sec_be R)"
    "(type = 15 \<longrightarrow> table R h ! type = wrapper_ts_msec_be R)"
    "(type = 16 \<longrightarrow> table R h ! type = wrapper_ts_usec_be R)"
    "(type = 17 \<longrightarrow> table R h ! type = wrapper_ts_nsec_be R)"
    "(type = 18 \<longrightarrow> table R h ! type = wrapper_ip4 R)"
    "(type = 19 \<longrightarrow> table R h ! type = wrapper_ip6 R)"
    by (auto simp: table_def)
  show ?thesis using len u i f d t by blast
qed

theorem field2str_dispatch_witness:
  "(20::nat) \<ge> 20 \<and>
   fds_field2str_be
      \<lparr>fds_octet_array2str = (\<lambda>f n s c. (Inr 0, s)), fds_uint2str_be = (\<lambda>f n s c. (Inr 1, s)),
       fds_int2str_be = (\<lambda>f n s c. (Inr 2, s)), fds_float2str_be = (\<lambda>f n s c. (Inr 3, s)),
       fds_bool2str = (\<lambda>f s c. (Inr 4, s)), fds_mac2str = (\<lambda>f n s c. (Inr 5, s)),
       fds_datetime2str_be = (\<lambda>f n t s c m. (Inr 6, s)), fds_ip2str = (\<lambda>f n s c. (Inr 7, s))\<rparr>
      LittleEndian [1, 2] 2 20 [0, 0, 0] 3 = (Inl FDS_ERR_FORMAT, [0, 0, 0]) \<and>
   (FDS_ET_UNSIGNED_8 \<le> (3::nat) \<and> (3::nat) \<le> FDS_ET_UNSIGNED_64) \<and> (3::nat) < 20 \<and>
   fds_field2str_be
      \<lparr>fds_octet_array2str = (\<lambda>f n s c. (Inr 0, s)), fds_uint2str_be = (\<lambda>f n s c. (Inr 1, s)),
       fds_int2str_be = (\<lambda>f n s c. (Inr 2, s)), fds_float2str_be = (\<lambda>f n s c. (Inr 3, s)),
       fds_bool2str = (\<lambda>f s c. (Inr 4, s)), fds_mac2str = (\<lambda>f n s c. (Inr 5, s)),
       fds_datetime2str_be = (\<lambda>f n t s c m. (Inr 6, s)), fds_ip2str = (\<lambda>f n s c. (Inr 7, s))\<rparr>
      LittleEndian [1, 2] 2 3 [0, 0, 0] 3 = (Inr 1, [0, 0, 0])"
proof -
  let ?R = "\<lparr>fds_octet_array2str = (\<lambda>f n s c. (Inr 0, s)), fds_uint2str_be = (\<lambda>f n s c. (Inr 1, s)),
       fds_int2str_be = (\<lambda>f n s c. (Inr 2, s)), fds_float2str_be = (\<lambda>f n s c. (Inr 3, s)),
       fds_bool2str = (\<lambda>f s c. (Inr 4, s)), fds_mac2str = (\<lambda>f n s c. (Inr 5, s)),
       fds_datetime2str_be = (\<lambda>f n t s c m. (Inr 6, s)), fds_ip2str = (\<lambda>f n s c. (Inr 7, s))\<rparr>
       :: renderers"
  have a: "(20::nat) \<ge> 20" and b: "FDS_ET_UNSIGNED_8 \<le> (3::nat) \<and> (3::nat) \<le> FDS_ET_UNSIGNED_64"
    and c: "(3::nat) < 20"
    by simp_all
  have "fds_field2str_be ?R LittleEndian [1, 2] 2 20 [0, 0, 0] 3 = (Inl FDS_ERR_FORMAT, [0, 0, 0])"
    using a field2str_dispatch [of 20 ?R LittleEndian "[1, 2]" 2 "[0, 0, 0]" 3] by blast
  moreover have "fds_field2str_be ?R LittleEndian [1, 2] 2 3 [0, 0, 0] 3 = (Inr 1, [0, 0, 0])"
    using b c field2str_dispatch [of 3 ?R LittleEndian "[1, 2]" 2 "[0, 0, 0]" 3] by simp
  ultimately show ?thesis using a b c by blast
qed


section \<open>Claims about the UTF-8 escaper\<close>

lemma le_bytes_and: "le_bytes n (x AND y) = map2 (AND) (le_bytes n x) (le_bytes n y)"
  by (rule nth_equalityI) (auto simp: le_bytes_nth intro!: bit_word_eqI simp: bit_simps)

lemma le_bytes_inj:
  fixes x y :: "'a::len word"
  assumes "LENGTH('a) \<le> 8 * n" "le_bytes n x = le_bytes n y"
  shows "x = y"
proof -
  have "le_word (le_bytes n x) = (le_word (le_bytes n y) :: 'a word)" using assms(2) by simp
  then show ?thesis using assms(1) by (simp add: le_word_le_bytes take_bit_word_eq_self)
qed

lemma le_bytes_2:
  "le_bytes 2 w = [ucast w, ucast (drop_bit 8 w)]"
  by (simp add: eval_nat_numeral le_bytes_Suc le_bytes_0)

lemma le_bytes_load_host:
  assumes "length bs = n" "8 * n \<le> LENGTH('a)"
  shows "le_bytes n (load_host h bs :: 'a::len word) = (case h of LittleEndian \<Rightarrow> bs | BigEndian \<Rightarrow> rev bs)"
  using assms by (cases h) (simp_all add: load_host_def le_bytes_le_word)

lemma store_load_host:
  assumes "length bs = n" "8 * n \<le> LENGTH('a)"
  shows "store_host h n (load_host h bs :: 'a::len word) = bs"
  using assms by (cases h) (simp_all add: load_host_def store_host_def le_bytes_le_word)

lemma tail16_check:
  "(load_host h [a, b] :: 16 word) AND 0xC0C0 = 0x8080 \<longleftrightarrow> a AND 0xC0 = 0x80 \<and> b AND 0xC0 = 0x80"
proof -
  have c1: "le_bytes 2 (0xC0C0 :: 16 word) = [0xC0, 0xC0]"
    and c2: "le_bytes 2 (0x8080 :: 16 word) = [0x80, 0x80]"
    by (simp_all add: le_bytes_2)
  have "(load_host h [a, b] :: 16 word) AND 0xC0C0 = 0x8080 \<longleftrightarrow>
        le_bytes 2 ((load_host h [a, b] :: 16 word) AND 0xC0C0) = le_bytes 2 (0x8080 :: 16 word)"
    by (auto dest: le_bytes_inj [rotated])
  also have "\<dots> \<longleftrightarrow> a AND 0xC0 = 0x80 \<and> b AND 0xC0 = 0x80"
    unfolding le_bytes_and c1 c2
    by (cases h) (auto simp: le_bytes_load_host)
  finally show ?thesis .
qed

lemma tail32_check:
  "(load_host h ((store_host h 4 (load_host h [a, b, c, d] :: 32 word))[0 := 0x80]) :: 32 word)
      AND 0xC0C0C0C0 = 0x80808080
   \<longleftrightarrow> b AND 0xC0 = 0x80 \<and> c AND 0xC0 = 0x80 \<and> d AND 0xC0 = 0x80"
proof -
  let ?t = "load_host h [0x80, b, c, d] :: 32 word"
  have c1: "le_bytes 4 (0xC0C0C0C0 :: 32 word) = [0xC0, 0xC0, 0xC0, 0xC0]"
    and c2: "le_bytes 4 (0x80808080 :: 32 word) = [0x80, 0x80, 0x80, 0x80]"
    by (simp_all add: le_bytes_4)
  have st: "(store_host h 4 (load_host h [a, b, c, d] :: 32 word))[0 := 0x80] = [0x80, b, c, d]"
    by (simp add: store_load_host)
  have "?t AND 0xC0C0C0C0 = 0x80808080 \<longleftrightarrow>
        le_bytes 4 (?t AND 0xC0C0C0C0) = le_bytes 4 (0x80808080 :: 32 word)"
    by (auto dest: le_bytes_inj [rotated])
  also have "\<dots> \<longleftrightarrow> b AND 0xC0 = 0x80 \<and> c AND 0xC0 = 0x80 \<and> d AND 0xC0 = 0x80"
    unfolding le_bytes_and c1 c2
    by (cases h) (auto simp: le_bytes_load_host)
  finally show ?thesis unfolding st .
qed

lemma take2_drop1: "3 \<le> length str \<Longrightarrow> take 2 (drop 1 str) = [str ! 1, str ! 2]"
  by (auto simp: eval_nat_numeral Suc_le_length_iff)

lemma take4: "4 \<le> length str \<Longrightarrow> take 4 str = [str ! 0, str ! 1, str ! 2, str ! 3]"
  by (auto simp: eval_nat_numeral Suc_le_length_iff)

lemma utf8char_is_valid_bytes:
  assumes "len \<le> length str"
  shows "utf8char_is_valid h str len = utf8_seq_len str len"
proof -
  have t2: "3 \<le> len \<Longrightarrow> take 2 (drop (Suc 0) str) = [str ! Suc 0, str ! 2]"
    using assms take2_drop1 [of str] by simp
  have t4: "4 \<le> len \<Longrightarrow> take 4 str = [str ! 0, str ! Suc 0, str ! 2, str ! 3]"
    using assms take4 [of str] by simp
  show ?thesis
    unfolding utf8char_is_valid_def utf8_seq_len_def Let_def
    by (simp add: t2 t4 tail16_check tail32_check)
qed

lemma list8:
  assumes "8 \<le> length (str :: 'a list)"
  obtains a0 a1 a2 a3 a4 a5 a6 a7 rest where "str = a0 # a1 # a2 # a3 # a4 # a5 # a6 # a7 # rest"
  using assms by (auto simp: eval_nat_numeral Suc_le_length_iff)

text \<open>
  C6. With a capacity of at least 8 bytes, \<open>fds_string2str\<close> on the four bytes
  \<open>41 0A C3 28\<close> returns 7 and leaves \<open>41 5C 6E EF BF BD 28 00\<close> at the start of the
  buffer, the rest of the buffer keeping its value: \<open>A\<close> is copied, the line feed becomes
  backslash and \<open>n\<close>, the lead byte \<open>C3\<close> without a continuation byte becomes U+FFFD and
  takes one byte of input, and \<open>28\<close> is copied as a character of its own.
\<close>

theorem escape_example:
  assumes "8 \<le> str_size" and "str_size \<le> length str"
  shows "fds_string2str h [0x41, 0x0A, 0xC3, 0x28] 4 str str_size
         = (Inr 7, [0x41, 0x5C, 0x6E, 0xEF, 0xBF, 0xBD, 0x28, 0x00] @ drop 8 str)"
proof -
  have "8 \<le> length str" using assms by simp
  then obtain a0 a1 a2 a3 a4 a5 a6 a7 rest
    where str: "str = a0 # a1 # a2 # a3 # a4 # a5 # a6 # a7 # rest"
    by (rule list8)
  show ?thesis
    using assms(1) unfolding str fds_string2str_def
    by (simp add: string2str_loop.simps string2str_iter_def utf8char_is_valid_bytes
        utf8_seq_len_def utf8char_is_escapable_def utf8char_is_control_def Let_def memcpy_at_def,
        arith)
qed

theorem escape_example_witness:
  "(8::nat) \<le> 8 \<and> (8::nat) \<le> length [0xAA, 0xAA, 0xAA, 0xAA, 0xAA, 0xAA, 0xAA, 0xAA :: byte] \<and>
   fds_string2str LittleEndian [0x41, 0x0A, 0xC3, 0x28] 4
      [0xAA, 0xAA, 0xAA, 0xAA, 0xAA, 0xAA, 0xAA, 0xAA] 8
     = (Inr 7, [0x41, 0x5C, 0x6E, 0xEF, 0xBF, 0xBD, 0x28, 0x00])"
proof -
  have a: "(8::nat) \<le> 8" and b: "(8::nat) \<le> length [0xAA, 0xAA, 0xAA, 0xAA, 0xAA, 0xAA, 0xAA, 0xAA :: byte]"
    by simp_all
  show ?thesis
    using a b escape_example [OF a b, of LittleEndian] by simp
qed


subsection \<open>Classification of the byte that starts a character\<close>

lemma byte_high_bit: "(b :: byte) AND 0x80 = 0 \<longleftrightarrow> b < 0x80"
proof -
  have lt: "unat b < 256" using unsigned_less [of b, where 'a = nat] by simp
  have "b AND 0x80 = 0 \<longleftrightarrow> \<not> bit b 7"
    using and_exp_eq_0_iff_not_bit [of b 7] by simp
  also have "\<dots> \<longleftrightarrow> \<not> bit (unat b) 7" by (simp add: bit_unsigned_iff)
  also have "\<dots> \<longleftrightarrow> even (unat b div 128)" by (simp add: bit_iff_odd)
  also have "\<dots> \<longleftrightarrow> unat b < 128"
  proof
    assume "even (unat b div 128)"
    moreover have "unat b div 128 < 2" using lt by simp
    ultimately have "unat b div 128 = 0" by (auto elim!: evenE)
    then show "unat b < 128" by simp
  qed simp
  also have "\<dots> \<longleftrightarrow> b < 0x80" by (simp add: word_less_nat_alt)
  finally show ?thesis .
qed

lemma byte_mask_ge: "(b :: byte) AND m = c \<Longrightarrow> c \<le> b"
  using word_and_le2 [of b m] by simp

lemma multibyte_lead:
  fixes b :: byte
  assumes "b AND 0xE0 = 0xC0 \<or> b AND 0xF0 = 0xE0 \<or> b AND 0xF8 = 0xF0"
  shows "0xC0 \<le> b"
proof -
  from assms consider "0xC0 \<le> b" | "0xE0 \<le> b" | "0xF0 \<le> b"
    by (auto dest: byte_mask_ge)
  then show ?thesis
  proof cases
    case 2 then show ?thesis by (rule order_trans [rotated]) simp
  next
    case 3 then show ?thesis by (rule order_trans [rotated]) simp
  qed
qed

lemma utf8_seq_len_multibyte:
  assumes "2 \<le> utf8_seq_len str len"
  shows "0xC0 \<le> str ! 0"
  using assms by (intro multibyte_lead) (auto simp: utf8_seq_len_def split: if_splits)

lemma utf8_seq_len_le: "1 \<le> len \<Longrightarrow> utf8_seq_len str len \<le> len"
  by (auto simp: utf8_seq_len_def)

lemma multibyte_plain:
  assumes "2 \<le> utf8_seq_len str len"
  shows "utf8char_is_escapable str len = None" and "\<not> utf8char_is_control str len"
proof -
  have ge: "0xC0 \<le> str ! 0" using assms by (rule utf8_seq_len_multibyte)
  then have "\<not> str ! 0 < 0x80" by (simp add: word_le_nat_alt word_less_nat_alt)
  then show "utf8char_is_escapable str len = None"
    by (simp add: utf8char_is_escapable_def byte_high_bit)
  show "\<not> utf8char_is_control str len"
    using ge by (auto simp: utf8char_is_control_def word_le_nat_alt)
qed

lemma changed_step_one:
  assumes "\<not> (utf8_seq_len str len \<noteq> 0 \<and> utf8char_is_escapable str len = None \<and>
                \<not> utf8char_is_control str len)"
  shows "(if utf8_seq_len str len > 0 then utf8_seq_len str len else 1) = 1"
proof (cases "2 \<le> utf8_seq_len str len")
  case True
  then show ?thesis using assms multibyte_plain [OF True] by simp
next
  case False
  then show ?thesis by auto
qed

lemma high_control_class:
  fixes b :: byte
  assumes "0x80 \<le> str ! 0" "str ! 0 \<le> 0x9F"
  shows "utf8_seq_len str len = 0" "utf8char_is_escapable str len = None"
    "utf8char_is_control str len"
proof -
  have nh: "str ! 0 AND 0x80 \<noteq> 0"
    using assms(1) by (simp add: byte_high_bit word_le_nat_alt word_less_nat_alt)
  have "\<not> 0xC0 \<le> str ! 0" using assms(2) by (simp add: word_le_nat_alt)
  then have "\<not> (str ! 0 AND 0xE0 = 0xC0 \<or> str ! 0 AND 0xF0 = 0xE0 \<or> str ! 0 AND 0xF8 = 0xF0)"
    using multibyte_lead by blast
  then show "utf8_seq_len str len = 0" using nh by (simp add: utf8_seq_len_def)
  show "utf8char_is_escapable str len = None" using nh by (simp add: utf8char_is_escapable_def)
  show "utf8char_is_control str len" using assms by (simp add: utf8char_is_control_def)
qed



lemma hex_digit_upper:
  assumes "unat x < 16"
  shows "hex_digit x = hex_upper ! unat x"
proof -
  have x: "x = of_nat (unat x)" by simp
  from assms consider "unat x = 0" | "unat x = 1" | "unat x = 2" | "unat x = 3" | "unat x = 4"
    | "unat x = 5" | "unat x = 6" | "unat x = 7" | "unat x = 8" | "unat x = 9" | "unat x = 10"
    | "unat x = 11" | "unat x = 12" | "unat x = 13" | "unat x = 14" | "unat x = 15"
    by atomize_elim presburger
  then show ?thesis
    by cases (subst x, simp add: hex_digit_def hex_upper_def)+
qed

lemma high_nibble: "unat (drop_bit 4 ((b :: byte) AND 0xF0)) = unat b div 16"
proof -
  have c: "(0xF0 :: byte) = NOT (mask 4)" by (simp add: mask_eq_exp_minus_1)
  have "drop_bit 4 (b AND 0xF0) = drop_bit 4 b"
    unfolding c by (rule bit_word_eqI) (auto simp: bit_simps dest: bit_imp_le_length)
  then show ?thesis
    by (simp add: unat_drop_bit_eq drop_bit_eq_div [where 'a = nat])
qed

lemma high_nibble_mod: "unat (drop_bit 4 (b :: byte)) mod 16 = unat b div 16"
proof -
  have "unat b < 256" using unsigned_less [of b, where 'a = nat] by simp
  then have "unat b div 16 < 16" by simp
  then show ?thesis by (simp add: unat_drop_bit_eq drop_bit_eq_div [where 'a = nat])
qed

lemma low_nibble: "unat ((b :: byte) AND 0x0F) = unat b mod 16"
proof -
  have c: "(0x0F :: byte) = mask 4" by (simp add: mask_eq_exp_minus_1)
  have "b AND 0x0F = take_bit 4 b" unfolding c by (simp add: take_bit_eq_mask)
  then show ?thesis by (simp add: unsigned_take_bit_eq take_bit_eq_mod [where 'a = nat])
qed

lemma hex_digits_of_byte:
  "hex_digit (drop_bit 4 (b :: byte) AND 0x0F) = hex_upper ! (unat b div 16)"
  "hex_digit (b AND 0x0F) = hex_upper ! (unat b mod 16)"
proof -
  have "unat b < 256" using unsigned_less [of b, where 'a = nat] by simp
  then have lt: "unat b div 16 < 16" by simp
  have "drop_bit 4 b AND 0x0F = drop_bit 4 (b AND 0xF0)" by simp
  then have hi: "unat (drop_bit 4 b AND 0x0F) = unat b div 16"
    by (simp only: high_nibble)
  have lo: "unat (b AND 0x0F) = unat b mod 16" by (rule low_nibble)
  show "hex_digit (drop_bit 4 b AND 0x0F) = hex_upper ! (unat b div 16)"
    using hex_digit_upper [of "drop_bit 4 b AND 0x0F"] lt unfolding hi by blast
  have "unat b mod 16 < 16" by simp
  then show "hex_digit (b AND 0x0F) = hex_upper ! (unat b mod 16)"
    using hex_digit_upper [of "b AND 0x0F"] unfolding lo by blast
qed

text \<open>
  One pass of the loop of \<open>fds_string2str\<close> at a byte from 0x80 to 0x9F: the copy region
  is flushed and, when four bytes of capacity remain after that, backslash, \<open>x\<close> and the
  two uppercase hexadecimal digits of the byte are written, the copy region moves behind
  the byte and \<open>step\<close> is 1. Without that capacity the pass returns \<open>FDS_ERR_BUFFER\<close>.
\<close>

lemma high_control_pass:
  assumes "pos_in s < sz" and "sz \<le> length field"
    and "0x80 \<le> field ! pos_in s" and "field ! pos_in s \<le> 0x9F"
  shows "string2str_iter h field sz str_size s =
    (let b = field ! pos_in s;
         copy_len = pos_in s - pos_copy s;
         out_remaining = str_size - pos_out s;
         out = memcpy_at (ptr_out s) (pos_out s) (take copy_len (drop (pos_copy s) field));
         p = pos_out s + copy_len
     in if copy_len > out_remaining then Inl (FDS_ERR_BUFFER, ptr_out s)
        else if out_remaining - copy_len < 4 then Inl (FDS_ERR_BUFFER, out)
        else Inr (s\<lparr>pos_copy := pos_in s + 1, pos_out := p + 4,
                     ptr_out := out[p := 0x5C, p + 1 := 0x78,
                                    p + 2 := hex_upper ! (unat b div 16),
                                    p + 3 := hex_upper ! (unat b mod 16)]\<rparr>, 1))"
proof -
  have d0: "drop (pos_in s) field ! 0 = field ! pos_in s"
    using assms(1,2) by simp
  have len: "sz - pos_in s \<le> length (drop (pos_in s) field)" using assms(2) by simp
  note cls = high_control_class [of "drop (pos_in s) field" "sz - pos_in s", unfolded d0, OF assms(3,4)]
  show ?thesis
    unfolding string2str_iter_def Let_def utf8char_is_valid_bytes [OF len]
    by (simp add: cls d0 hex_digits_of_byte high_nibble_mod)
qed

subsection \<open>The checker on concatenations\<close>

lemma utf8_seq_len_cases:
  "utf8_seq_len str len = 0 \<or> utf8_seq_len str len = 1 \<or> utf8_seq_len str len = 2 \<or>
   utf8_seq_len str len = 3 \<or> utf8_seq_len str len = 4"
  by (simp add: utf8_seq_len_def)

lemma utf8_seq_len_1: "utf8_seq_len str len = 1 \<longleftrightarrow> str ! 0 AND 0x80 = 0"
  by (simp add: utf8_seq_len_def)

lemma utf8_seq_len_2:
  "utf8_seq_len str len = 2 \<longleftrightarrow>
     str ! 0 AND 0x80 \<noteq> 0 \<and> str ! 0 AND 0xE0 = 0xC0 \<and> 2 \<le> len \<and> str ! 1 AND 0xC0 = 0x80"
  by (auto simp: utf8_seq_len_def)

lemma utf8_seq_len_3:
  "utf8_seq_len str len = 3 \<longleftrightarrow>
     str ! 0 AND 0x80 \<noteq> 0 \<and> \<not> (str ! 0 AND 0xE0 = 0xC0 \<and> 2 \<le> len) \<and>
     str ! 0 AND 0xF0 = 0xE0 \<and> 3 \<le> len \<and> str ! 1 AND 0xC0 = 0x80 \<and> str ! 2 AND 0xC0 = 0x80"
  by (auto simp: utf8_seq_len_def)

lemma utf8_seq_len_4:
  "utf8_seq_len str len = 4 \<longleftrightarrow>
     str ! 0 AND 0x80 \<noteq> 0 \<and> \<not> (str ! 0 AND 0xE0 = 0xC0 \<and> 2 \<le> len) \<and>
     \<not> (str ! 0 AND 0xF0 = 0xE0 \<and> 3 \<le> len) \<and>
     str ! 0 AND 0xF8 = 0xF0 \<and> 4 \<le> len \<and>
     str ! 1 AND 0xC0 = 0x80 \<and> str ! 2 AND 0xC0 = 0x80 \<and> str ! 3 AND 0xC0 = 0x80"
  by (auto simp: utf8_seq_len_def)

lemma utf8_seq_len_transfer:
  assumes "utf8_seq_len str len = k" "k \<noteq> 0" "k \<le> len'" "\<forall>j<k. str' ! j = str ! j"
  shows "utf8_seq_len str' len' = k"
proof -
  from assms(1,2) utf8_seq_len_cases [of str len]
  consider "k = 1" | "k = 2" | "k = 3" | "k = 4" by metis
  then show ?thesis
  proof cases
    case 1
    then have "str' ! 0 = str ! 0" using assms(4) by simp
    moreover have "str ! 0 AND 0x80 = 0" using assms(1) 1 by (simp only: utf8_seq_len_1)
    ultimately have "utf8_seq_len str' len' = 1" by (simp only: utf8_seq_len_1)
    then show ?thesis using 1 by simp
  next
    case 2
    then have e: "str' ! 0 = str ! 0" "str' ! 1 = str ! 1" using assms(4) by simp_all
    have "utf8_seq_len str len = 2" using assms(1) 2 by simp
    then have "utf8_seq_len str' len' = 2"
      using assms(3) 2 unfolding utf8_seq_len_2 e by simp
    then show ?thesis using 2 by simp
  next
    case 3
    then have e: "str' ! 0 = str ! 0" "str' ! 1 = str ! 1" "str' ! 2 = str ! 2"
      using assms(4) by simp_all
    have "utf8_seq_len str len = 3" using assms(1) 3 by simp
    then have "utf8_seq_len str' len' = 3"
      using assms(3) 3 unfolding utf8_seq_len_3 e by auto
    then show ?thesis using 3 by simp
  next
    case 4
    then have e: "str' ! 0 = str ! 0" "str' ! 1 = str ! 1" "str' ! 2 = str ! 2" "str' ! 3 = str ! 3"
      using assms(4) by simp_all
    have "utf8_seq_len str len = 4" using assms(1) 4 by simp
    then have "utf8_seq_len str' len' = 4"
      using assms(3) 4 unfolding utf8_seq_len_4 e by auto
    then show ?thesis using 4 by simp
  qed
qed


lemma utf8check_loop_bytes:
  assumes "sz \<le> length field"
  shows "utf8check_loop h field sz idx =
    (if idx < sz then
       (if utf8_seq_len (drop idx field) (sz - idx) = 0 then FDS_ERR_ARG
        else utf8check_loop h field sz (idx + utf8_seq_len (drop idx field) (sz - idx)))
     else FDS_OK)"
proof -
  have "sz - idx \<le> length (drop idx field)" using assms by simp
  then show ?thesis
    by (subst utf8check_loop.simps) (simp add: utf8char_is_valid_bytes Let_def)
qed

lemma utf8check_loop_shift:
  "utf8check_loop h (xs @ ys) (length xs + m) (length xs + j) = utf8check_loop h ys m j"
proof (induction h ys m j rule: utf8check_loop.induct)
  case (1 h ys m j)
  show ?case
  proof (cases "j < m")
    case False
    then show ?thesis by (simp add: utf8check_loop.simps [of _ _ _ j] utf8check_loop.simps [of _ _ _ "length xs + j"])
  next
    case True
    let ?k = "utf8char_is_valid h (drop j ys) (m - j)"
    show ?thesis
    proof (cases "?k = 0")
      case True
      with \<open>j < m\<close> show ?thesis
        by (simp add: utf8check_loop.simps [of _ _ _ j] utf8check_loop.simps [of _ _ _ "length xs + j"])
    next
      case False
      have "utf8check_loop h (xs @ ys) (length xs + m) (length xs + (j + ?k)) =
            utf8check_loop h ys m (j + ?k)"
        using "1.IH" [OF \<open>j < m\<close> refl False] .
      with \<open>j < m\<close> False show ?thesis
        by (simp add: utf8check_loop.simps [of _ _ _ j] utf8check_loop.simps [of _ _ _ "length xs + j"]
            add.assoc)
    qed
  qed
qed



lemma utf8check_loop_append:
  assumes ys: "utf8check_loop h ys (length ys) 0 = FDS_OK"
  shows "i \<le> length xs \<Longrightarrow> utf8check_loop h xs (length xs) i = FDS_OK \<Longrightarrow>
         utf8check_loop h (xs @ ys) (length xs + length ys) i = FDS_OK"
proof (induction "length xs - i" arbitrary: i rule: less_induct)
  case less
  show ?case
  proof (cases "i < length xs")
    case False
    then have "i = length xs" using less.prems(1) by simp
    then show ?thesis using utf8check_loop_shift [of h xs ys "length ys" 0] ys by simp
  next
    case True
    let ?k = "utf8_seq_len (drop i xs) (length xs - i)"
    have unf: "utf8check_loop h xs (length xs) i =
               (if ?k = 0 then FDS_ERR_ARG else utf8check_loop h xs (length xs) (i + ?k))"
      using True by (subst utf8check_loop_bytes) simp_all
    have k0: "?k \<noteq> 0" using less.prems(2) unf by (auto split: if_splits)
    then have rest: "utf8check_loop h xs (length xs) (i + ?k) = FDS_OK"
      using less.prems(2) unf by simp
    have kle: "?k \<le> length xs - i" using True by (intro utf8_seq_len_le) simp
    have same: "utf8_seq_len (drop i (xs @ ys)) (length xs + length ys - i) = ?k"
    proof (rule utf8_seq_len_transfer [OF refl k0])
      show "?k \<le> length xs + length ys - i" using kle by simp
      show "\<forall>j<?k. drop i (xs @ ys) ! j = drop i xs ! j"
        using kle by (auto simp: nth_append)
    qed
    have ih: "utf8check_loop h (xs @ ys) (length xs + length ys) (i + ?k) = FDS_OK"
      using kle True k0 by (intro less.hyps rest) simp_all
    have "utf8check_loop h (xs @ ys) (length xs + length ys) i =
          (if i < length xs + length ys then
             (if utf8_seq_len (drop i (xs @ ys)) (length xs + length ys - i) = 0 then FDS_ERR_ARG
              else utf8check_loop h (xs @ ys) (length xs + length ys)
                     (i + utf8_seq_len (drop i (xs @ ys)) (length xs + length ys - i)))
           else FDS_OK)"
      by (rule utf8check_loop_bytes) simp
    then show ?thesis
      unfolding same using True k0 ih by simp
  qed
qed


lemma utf8_ok_Nil: "utf8_ok h []"
  by (simp add: utf8_ok_def fds_string_utf8check_def utf8check_loop.simps)

lemma utf8_ok_append: "utf8_ok h xs \<Longrightarrow> utf8_ok h ys \<Longrightarrow> utf8_ok h (xs @ ys)"
  using utf8check_loop_append [of h ys 0 xs]
  by (simp add: utf8_ok_def fds_string_utf8check_def)

lemma utf8_ok_char:
  assumes "c \<noteq> []" "utf8_seq_len c (length c) = length c"
  shows "utf8_ok h c"
proof -
  have pos: "0 < length c" using assms(1) by simp
  have "utf8check_loop h c (length c) 0 = utf8check_loop h c (length c) (length c)"
    by (subst utf8check_loop_bytes) (use pos assms(2) in simp_all)
  also have "\<dots> = FDS_OK"
    by (subst utf8check_loop_bytes) simp_all
  finally show ?thesis by (simp add: utf8_ok_def fds_string_utf8check_def)
qed

lemma utf8_ok_ascii: "\<forall>b\<in>set E. b AND 0x80 = 0 \<Longrightarrow> utf8_ok h E"
proof (induction E)
  case Nil
  show ?case by (rule utf8_ok_Nil)
next
  case (Cons b E)
  have "utf8_ok h [b]" using Cons.prems by (intro utf8_ok_char) (simp_all add: utf8_seq_len_def)
  moreover have "utf8_ok h E" using Cons by simp
  ultimately have "utf8_ok h ([b] @ E)" by (rule utf8_ok_append)
  then show ?case by simp
qed

lemma utf8_ok_replacement: "utf8_ok h [0xEF, 0xBF, 0xBD]"
  by (rule utf8_ok_char) (simp_all add: utf8_seq_len_def)

subsection \<open>The loop invariant\<close>

lemma length_memcpy_at:
  "off + length src \<le> length mem \<Longrightarrow> length (memcpy_at mem off src) = length mem"
  by (simp add: memcpy_at_def)

lemma take_memcpy_at:
  "off + length src \<le> length mem \<Longrightarrow>
   take (off + length src) (memcpy_at mem off src) = take off mem @ src"
  by (simp add: memcpy_at_def)

lemma Suc_diff_back:
  "2 \<le> i \<Longrightarrow> Suc (Suc (i - 2)) = i"
  "3 \<le> i \<Longrightarrow> Suc (Suc (Suc (i - 3))) = i"
  "4 \<le> i \<Longrightarrow> Suc (Suc (Suc (Suc (i - 4)))) = i"
  by arith+

lemma update2_memcpy_at:
  "p + 2 \<le> length xs \<Longrightarrow> xs[p := a, p + 1 := b] = memcpy_at xs p [a, b]"
  by (rule nth_equalityI)
    (auto simp: memcpy_at_def nth_append nth_list_update nth_Cons' min_def Suc_diff_back)

lemma update3_memcpy_at:
  "p + 3 \<le> length xs \<Longrightarrow> xs[p := a, p + 1 := b, p + 2 := c] = memcpy_at xs p [a, b, c]"
  by (rule nth_equalityI)
    (auto simp: memcpy_at_def nth_append nth_list_update nth_Cons' min_def Suc_diff_back)

lemma update4_memcpy_at:
  "p + 4 \<le> length xs \<Longrightarrow>
   xs[p := a, p + 1 := b, p + 2 := c, p + 3 := d] = memcpy_at xs p [a, b, c, d]"
  by (rule nth_equalityI)
    (auto simp: memcpy_at_def nth_append nth_list_update nth_Cons' min_def Suc_diff_back)



lemma escapable_ascii:
  "utf8char_is_escapable str len = Some c \<Longrightarrow> c AND 0x80 = 0"
  by (auto simp: utf8char_is_escapable_def split: if_splits)

lemma hex_upper_ascii: "n < 16 \<Longrightarrow> (hex_upper ! n) AND 0x80 = 0"
proof -
  have "\<forall>b\<in>set hex_upper. b AND 0x80 = 0" by (simp add: hex_upper_def)
  moreover assume "n < 16"
  then have "hex_upper ! n \<in> set hex_upper" by (intro nth_mem) (simp add: hex_upper_def)
  ultimately show ?thesis by blast
qed

lemma hex_digit_ascii:
  "hex_digit (drop_bit 4 (b :: byte) AND 0x0F) AND 0x80 = 0"
  "hex_digit (b AND 0x0F) AND 0x80 = 0"
proof -
  have "unat b < 256" using unsigned_less [of b, where 'a = nat] by simp
  then have "unat b div 16 < 16" by simp
  then show "hex_digit (drop_bit 4 b AND 0x0F) AND 0x80 = 0"
    unfolding hex_digits_of_byte(1) by (rule hex_upper_ascii)
  show "hex_digit (b AND 0x0F) AND 0x80 = 0"
    unfolding hex_digits_of_byte(2) by (rule hex_upper_ascii) simp
qed

lemma string2str_iter_cases:
  assumes f: "sz \<le> length field" and lt: "pos_in s < sz"
    and o: "pos_out s \<le> str_size" "str_size \<le> length (ptr_out s)"
  defines "k \<equiv> utf8_seq_len (drop (pos_in s) field) (sz - pos_in s)"
  defines "pending \<equiv> take (pos_in s - pos_copy s) (drop (pos_copy s) field)"
  shows "(k \<noteq> 0 \<and> emit_char h field sz (pos_in s) = take k (drop (pos_in s) field) \<and>
          char_step h field sz (pos_in s) = k \<and>
          string2str_iter h field sz str_size s = Inr (s, k)) \<or>
         (\<exists>r. string2str_iter h field sz str_size s = Inl r) \<or>
         (\<exists>E. utf8_ok h E \<and> emit_char h field sz (pos_in s) = E \<and>
              char_step h field sz (pos_in s) = 1 \<and>
              (pos_in s - pos_copy s) + length E \<le> str_size - pos_out s \<and>
              string2str_iter h field sz str_size s =
                Inr (s\<lparr>pos_copy := pos_in s + 1,
                       pos_out := pos_out s + (pos_in s - pos_copy s) + length E,
                       ptr_out := memcpy_at (memcpy_at (ptr_out s) (pos_out s) pending)
                                    (pos_out s + (pos_in s - pos_copy s)) E\<rparr>, 1))"
proof -
  let ?str = "drop (pos_in s) field"
  let ?len = "sz - pos_in s"
  let ?esc = "utf8char_is_escapable ?str ?len"
  let ?ctl = "utf8char_is_control ?str ?len"
  let ?cl = "pos_in s - pos_copy s"
  let ?rem = "str_size - pos_out s"
  let ?out = "memcpy_at (ptr_out s) (pos_out s) pending"
  let ?p = "pos_out s + ?cl"
  have len: "?len \<le> length ?str" using f by simp
  have v: "utf8char_is_valid h ?str ?len = k" unfolding k_def by (rule utf8char_is_valid_bytes [OF len])
  have plen: "length pending = ?cl" unfolding pending_def using f lt by simp
  show ?thesis
  proof (cases "k \<noteq> 0 \<and> ?esc = None \<and> \<not> ?ctl")
    case True
    then have "string2str_iter h field sz str_size s = Inr (s, k)"
      by (simp add: string2str_iter_def Let_def v)
    moreover have "emit_char h field sz (pos_in s) = take k ?str"
      using True by (simp add: emit_char_def Let_def v)
    moreover have "char_step h field sz (pos_in s) = k"
      using True by (simp add: char_step_def Let_def v)
    ultimately show ?thesis using True by blast
  next
    case False
    then have "(if 0 < k then k else 1) = 1"
      unfolding k_def by (rule changed_step_one)
    then have st: "k = 0 \<or> k = 1" by (auto split: if_splits)
    then have cs: "char_step h field sz (pos_in s) = 1"
      by (auto simp: char_step_def Let_def v)
    show ?thesis
    proof (cases "?cl > ?rem")
      case True
      then have "string2str_iter h field sz str_size s = Inl (FDS_ERR_BUFFER, ptr_out s)"
        using False by (simp add: string2str_iter_def Let_def v)
      then show ?thesis by blast
    next
      case fits: False
      have olen: "length ?out = length (ptr_out s)"
        using fits o plen by (intro length_memcpy_at) simp
      show ?thesis
      proof (cases ?esc)
        case (Some subst)
        show ?thesis
        proof (cases "?rem - ?cl < 2")
          case True
          then have "string2str_iter h field sz str_size s = Inl (FDS_ERR_BUFFER, ?out)"
            using False fits Some by (simp add: string2str_iter_def Let_def v pending_def)
          then show ?thesis by blast
        next
          case room: False
          have ok: "utf8_ok h [0x5C, subst]"
            using escapable_ascii [OF Some] by (intro utf8_ok_ascii) simp
          have up: "?out[?p := 0x5C, ?p + 1 := subst] = memcpy_at ?out ?p [0x5C, subst]"
            using room fits o olen by (intro update2_memcpy_at) simp
          have raw: "string2str_iter h field sz str_size s =
                Inr (s\<lparr>pos_copy := pos_in s + 1, pos_out := ?p + 2,
                       ptr_out := ?out[?p := 0x5C, ?p + 1 := subst]\<rparr>, 1)"
            using False fits Some room st
            by (auto simp: string2str_iter_def Let_def v pending_def)
          have "string2str_iter h field sz str_size s =
                Inr (s\<lparr>pos_copy := pos_in s + 1, pos_out := ?p + length [0x5C, subst],
                       ptr_out := memcpy_at ?out ?p [0x5C, subst]\<rparr>, 1)"
            unfolding raw up by simp
          moreover have "?cl + length [0x5C, subst] \<le> ?rem" using room fits by simp
          moreover have "emit_char h field sz (pos_in s) = [0x5C, subst]"
            using False Some by (simp add: emit_char_def Let_def v)
          ultimately show ?thesis using ok cs by blast
        qed
      next
        case None
        show ?thesis
        proof (cases ?ctl)
          case True
          let ?E = "[0x5C, 0x78, hex_digit (drop_bit 4 (?str ! 0) AND 0x0F),
                     hex_digit (?str ! 0 AND 0x0F)]"
          show ?thesis
          proof (cases "?rem - ?cl < 4")
            case True
            then have "string2str_iter h field sz str_size s = Inl (FDS_ERR_BUFFER, ?out)"
              using False fits None \<open>?ctl\<close> by (simp add: string2str_iter_def Let_def v pending_def)
            then show ?thesis by blast
          next
            case room: False
            have ok: "utf8_ok h ?E"
              by (intro utf8_ok_ascii) (simp add: hex_digit_ascii)
            have up: "?out[?p := 0x5C, ?p + 1 := 0x78,
                           ?p + 2 := hex_digit (drop_bit 4 (?str ! 0) AND 0x0F),
                           ?p + 3 := hex_digit (?str ! 0 AND 0x0F)] = memcpy_at ?out ?p ?E"
              using room fits o olen by (intro update4_memcpy_at) simp
            have raw: "string2str_iter h field sz str_size s =
                  Inr (s\<lparr>pos_copy := pos_in s + 1, pos_out := ?p + 4,
                         ptr_out := ?out[?p := 0x5C, ?p + 1 := 0x78,
                           ?p + 2 := hex_digit (drop_bit 4 (?str ! 0) AND 0x0F),
                           ?p + 3 := hex_digit (?str ! 0 AND 0x0F)]\<rparr>, 1)"
              using False fits None \<open>?ctl\<close> room st
              by (auto simp: string2str_iter_def Let_def v pending_def)
            have "string2str_iter h field sz str_size s =
                  Inr (s\<lparr>pos_copy := pos_in s + 1, pos_out := ?p + length ?E,
                         ptr_out := memcpy_at ?out ?p ?E\<rparr>, 1)"
              unfolding raw up by simp
            moreover have "?cl + length ?E \<le> ?rem" using room fits by simp
            moreover have "emit_char h field sz (pos_in s) = ?E"
              using False None \<open>?ctl\<close> by (simp add: emit_char_def Let_def v)
            ultimately show ?thesis using ok cs by blast
          qed
        next
          case nctl: False
          let ?E = "[0xEF, 0xBF, 0xBD] :: byte list"
          show ?thesis
          proof (cases "?rem - ?cl < 3")
            case True
            then have "string2str_iter h field sz str_size s = Inl (FDS_ERR_BUFFER, ?out)"
              using False fits None nctl by (simp add: string2str_iter_def Let_def v pending_def)
            then show ?thesis by blast
          next
            case room: False
            have up: "?out[?p := 0xEF, ?p + 1 := 0xBF, ?p + 2 := 0xBD] = memcpy_at ?out ?p ?E"
              using room fits o olen by (intro update3_memcpy_at) simp
            have raw: "string2str_iter h field sz str_size s =
                  Inr (s\<lparr>pos_copy := pos_in s + 1, pos_out := ?p + 3,
                         ptr_out := ?out[?p := 0xEF, ?p + 1 := 0xBF, ?p + 2 := 0xBD]\<rparr>, 1)"
              using False fits None nctl room st
              by (auto simp: string2str_iter_def Let_def v pending_def)
            have "string2str_iter h field sz str_size s =
                  Inr (s\<lparr>pos_copy := pos_in s + 1, pos_out := ?p + length ?E,
                         ptr_out := memcpy_at ?out ?p ?E\<rparr>, 1)"
              unfolding raw up by simp
            moreover have "?cl + length ?E \<le> ?rem" using room fits by simp
            moreover have "emit_char h field sz (pos_in s) = ?E"
              using False None nctl by (simp add: emit_char_def Let_def v)
            ultimately show ?thesis using utf8_ok_replacement cs by blast
          qed
        qed
      qed
    qed
  qed
qed

lemma take_pending_extend:
  assumes "a \<le> b"
  shows "take (b + k - a) (drop a xs) = take (b - a) (drop a xs) @ take k (drop b xs)"
proof -
  have "b + k - a = (b - a) + k" using assms by simp
  then have "take (b + k - a) (drop a xs) = take (b - a) (drop a xs) @ take k (drop (b - a) (drop a xs))"
    by (simp only: take_add)
  then show ?thesis using assms by simp
qed









subsection \<open>A count beyond the range of the returned int\<close>





subsection \<open>The text of the output\<close>

lemma escaped_from_step:
  "i < sz \<Longrightarrow> escaped_from h field sz i =
     emit_char h field sz i @ escaped_from h field sz (i + char_step h field sz i)"
  unfolding escaped_from_def by (subst char_starts.simps) simp

lemma escaped_from_end: "sz \<le> i \<Longrightarrow> escaped_from h field sz i = []"
  unfolding escaped_from_def by (subst char_starts.simps) simp

lemma string2str_iter_text_inv:
  assumes inv: "s2s_text_inv h field sz str_size s" and lt: "pos_in s < sz"
    and it: "string2str_iter h field sz str_size s = Inr (s', step)"
  shows "s2s_text_inv h field sz str_size (s'\<lparr>pos_in := pos_in s' + step\<rparr>)"
proof -
  let ?cl = "pos_in s - pos_copy s"
  let ?pending = "take ?cl (drop (pos_copy s) field)"
  let ?k = "utf8_seq_len (drop (pos_in s) field) (sz - pos_in s)"
  let ?W = "take (pos_out s) (ptr_out s) @ ?pending"
  from inv have ci: "pos_copy s \<le> pos_in s" and f: "sz \<le> length field"
    and o: "pos_out s \<le> str_size" "str_size \<le> length (ptr_out s)"
    and tx: "?W @ escaped_from h field sz (pos_in s) = escaped_from h field sz 0"
    by (simp_all add: s2s_text_inv_def)
  have plen: "length ?pending = ?cl" using f lt by simp
  have unf: "escaped_from h field sz (pos_in s) = emit_char h field sz (pos_in s) @
      escaped_from h field sz (pos_in s + char_step h field sz (pos_in s))"
    using lt by (rule escaped_from_step)
  from string2str_iter_cases [OF f lt o, of h] it
  consider (plain) "?k \<noteq> 0" "s' = s" "step = ?k"
      "emit_char h field sz (pos_in s) = take ?k (drop (pos_in s) field)"
      "char_step h field sz (pos_in s) = ?k"
    | (changed) E where "emit_char h field sz (pos_in s) = E"
        "char_step h field sz (pos_in s) = 1"
        "?cl + length E \<le> str_size - pos_out s"
        "s' = s\<lparr>pos_copy := pos_in s + 1, pos_out := pos_out s + ?cl + length E,
                 ptr_out := memcpy_at (memcpy_at (ptr_out s) (pos_out s) ?pending)
                              (pos_out s + ?cl) E\<rparr>"
        "step = 1"
    by auto
  then show ?thesis
  proof cases
    case plain
    let ?c = "take ?k (drop (pos_in s) field)"
    have kle: "?k \<le> sz - pos_in s" using lt by (intro utf8_seq_len_le) simp
    have ext: "take (pos_in s + ?k - pos_copy s) (drop (pos_copy s) field) = ?pending @ ?c"
      using ci by (rule take_pending_extend)
    have "(?W @ ?c) @ escaped_from h field sz (pos_in s + ?k) = escaped_from h field sz 0"
      using tx unfolding unf plain(4,5) by simp
    then show ?thesis
      using plain(2,3) ci f o kle lt by (simp add: s2s_text_inv_def ext)
  next
    case changed
    let ?X = "memcpy_at (ptr_out s) (pos_out s) ?pending"
    let ?p = "pos_out s + ?cl"
    have room: "?p + length E \<le> str_size" using changed(3) o(1) by simp
    have xlen: "length ?X = length (ptr_out s)"
      using room o(2) plen by (intro length_memcpy_at) simp
    have ylen: "length (memcpy_at ?X ?p E) = length (ptr_out s)"
      using room o(2) xlen by (simp add: length_memcpy_at)
    have "take (pos_out s + length ?pending) ?X = take (pos_out s) (ptr_out s) @ ?pending"
      using room o(2) plen by (intro take_memcpy_at) simp
    then have t1: "take ?p ?X = ?W"
      by (simp only: plen)
    have "take (?p + length E) (memcpy_at ?X ?p E) = take ?p ?X @ E"
      using room o(2) xlen by (intro take_memcpy_at) simp
    then have ty: "take (?p + length E) (memcpy_at ?X ?p E) = ?W @ E"
      by (simp only: t1)
    have "(?W @ E) @ escaped_from h field sz (pos_in s + 1) = escaped_from h field sz 0"
      using tx unfolding unf changed(1,2) by simp
    then show ?thesis
      using changed(4,5) lt f o room ylen by (simp add: s2s_text_inv_def ty)
  qed
qed

lemma string2str_loop_text_inv:
  "s2s_text_inv h field sz str_size s \<Longrightarrow> string2str_loop h field sz str_size s = Inr s' \<Longrightarrow>
   s2s_text_inv h field sz str_size s' \<and> pos_in s' = sz"
proof (induction h field sz str_size s rule: string2str_loop.induct)
  case (1 h field sz str_size s)
  show ?case
  proof (cases "pos_in s < sz")
    case False
    then have "s' = s" using "1.prems"(2) by (simp add: string2str_loop.simps)
    moreover have "pos_in s \<le> sz" using "1.prems"(1) by (simp add: s2s_text_inv_def)
    ultimately show ?thesis using False "1.prems"(1) by simp
  next
    case True
    from "1.prems"(2) True obtain s1 step
      where it: "string2str_iter h field sz str_size s = Inr (s1, step)"
        and rest: "string2str_loop h field sz str_size (s1\<lparr>pos_in := pos_in s1 + step\<rparr>) = Inr s'"
      by (subst (asm) string2str_loop.simps) (auto split: sum.splits)
    have "s2s_text_inv h field sz str_size (s1\<lparr>pos_in := pos_in s1 + step\<rparr>)"
      using "1.prems"(1) True it by (rule string2str_iter_text_inv)
    then show ?thesis
      using "1.IH" [OF True it refl] rest by simp
  qed
qed

lemma fds_string2str_text:
  assumes f: "sz \<le> length field" and c: "str_size \<le> length str"
    and r: "fds_string2str h field sz str str_size = (Inr n, out)"
  defines "E \<equiv> escaped_from h field sz 0"
  shows "length E < str_size" "take (length E) out = E" "out ! length E = 0"
    "n = sint (word_of_nat (length E) :: 32 word)"
proof -
  let ?s0 = "\<lparr>pos_in = 0, pos_copy = 0, pos_out = 0, ptr_out = str\<rparr>"
  have fit: "\<not> sz + 1 > str_size" using r by (auto simp: fds_string2str_def)
  obtain s where loop: "string2str_loop h field sz str_size ?s0 = Inr s"
    using r fit by (auto simp: fds_string2str_def split: sum.splits)
  have "s2s_text_inv h field sz str_size ?s0"
    using f c by (simp add: s2s_text_inv_def)
  from string2str_loop_text_inv [OF this loop]
  have inv: "s2s_text_inv h field sz str_size s" and fin: "pos_in s = sz" by simp_all
  let ?cl = "sz - pos_copy s"
  let ?pending = "take ?cl (drop (pos_copy s) field)"
  let ?p = "pos_out s + ?cl"
  let ?X = "memcpy_at (ptr_out s) (pos_out s) ?pending"
  from inv fin have o: "pos_out s \<le> str_size" "str_size \<le> length (ptr_out s)"
    and tx: "take (pos_out s) (ptr_out s) @ ?pending = E"
    and ci: "pos_copy s \<le> sz"
    by (simp_all add: s2s_text_inv_def escaped_from_end E_def)
  have room: "\<not> ?cl + 1 > str_size - pos_out s"
    using r fit loop by (auto simp: fds_string2str_def Let_def split: if_splits)
  then have res: "n = sint (word_of_nat ?p :: 32 word)" "out = ?X[?p := 0]"
    using r fit loop by (auto simp: fds_string2str_def Let_def split: if_splits)
  have plt: "?p < str_size" using room o(1) by simp
  have plen: "length ?pending = ?cl" using f ci by simp
  have xlen: "length ?X = length (ptr_out s)"
    using plt o(2) plen by (intro length_memcpy_at) simp
  have "take (pos_out s + length ?pending) ?X = take (pos_out s) (ptr_out s) @ ?pending"
    using plt o(2) plen by (intro take_memcpy_at) simp
  then have "take ?p ?X = E" by (simp only: plen tx)
  then have t: "take ?p out = E" by (simp add: res(2))
  have "length (take ?p out) = ?p" using plt o(2) xlen by (simp add: res(2))
  then have le: "length E = ?p" unfolding t .
  show "length E < str_size" unfolding le by (rule plt)
  show "take (length E) out = E" unfolding le by (rule t)
  show "out ! length E = 0" unfolding le using plt o(2) xlen by (simp add: res(2))
  show "n = sint (word_of_nat (length E) :: 32 word)" unfolding le by (rule res(1))
qed

lemma char_step_pos: "0 < char_step h field sz i"
  by (simp add: char_step_def Let_def)

lemma char_starts_bounds:
  "i \<in> set (char_starts h field sz j) \<Longrightarrow> j \<le> i \<and> i < sz"
proof (induction h field sz j rule: char_starts.induct)
  case (1 h field sz j)
  show ?case
  proof (cases "j < sz")
    case False
    then show ?thesis using "1.prems" by (subst (asm) char_starts.simps) simp
  next
    case True
    from "1.prems" True
    have "i = j \<or> i \<in> set (char_starts h field sz (j + char_step h field sz j))"
      by (subst (asm) char_starts.simps) simp
    then show ?thesis
    proof
      assume "i = j" then show ?thesis using True by simp
    next
      assume "i \<in> set (char_starts h field sz (j + char_step h field sz j))"
      then have "j + char_step h field sz j \<le> i \<and> i < sz" by (rule "1.IH" [OF True])
      then show ?thesis by simp
    qed
  qed
qed

lemma char_starts_split:
  "i \<in> set (char_starts h field sz j) \<Longrightarrow>
   char_starts h field sz j =
     takeWhile (\<lambda>x. x < i) (char_starts h field sz j) @ char_starts h field sz i"
proof (induction h field sz j rule: char_starts.induct)
  case (1 h field sz j)
  let ?n = "j + char_step h field sz j"
  show ?case
  proof (cases "j < sz")
    case False
    then show ?thesis using "1.prems" by (subst (asm) char_starts.simps) simp
  next
    case True
    have unf: "char_starts h field sz j = j # char_starts h field sz ?n"
      using True by (subst char_starts.simps) simp
    from "1.prems" have "i = j \<or> i \<in> set (char_starts h field sz ?n)"
      unfolding unf by simp
    then show ?thesis
    proof
      assume "i = j"
      then show ?thesis using unf by simp
    next
      assume mem: "i \<in> set (char_starts h field sz ?n)"
      then have "?n \<le> i" using char_starts_bounds by blast
      then have lt: "j < i" using char_step_pos [of h field sz j] by simp
      have "char_starts h field sz ?n =
          takeWhile (\<lambda>x. x < i) (char_starts h field sz ?n) @ char_starts h field sz i"
        using mem by (rule "1.IH" [OF True])
      then have "j # char_starts h field sz ?n =
          takeWhile (\<lambda>x. x < i) (j # char_starts h field sz ?n) @ char_starts h field sz i"
        using lt by simp
      then show ?thesis unfolding unf .
    qed
  qed
qed

lemma escaped_split:
  assumes "i \<in> set (char_starts h field sz 0)"
  shows "escaped_from h field sz 0 = escaped_before h field sz i @ escaped_from h field sz i"
proof -
  have "concat (map (emit_char h field sz) (char_starts h field sz 0)) =
        concat (map (emit_char h field sz)
          (takeWhile (\<lambda>x. x < i) (char_starts h field sz 0) @ char_starts h field sz i))"
    using char_starts_split [OF assms] by simp
  then show ?thesis by (simp add: escaped_from_def escaped_before_def)
qed

lemma high_control_char:
  assumes "i < sz" and "sz \<le> length field"
    and "0x80 \<le> field ! i" and "field ! i \<le> 0x9F"
  shows "char_step h field sz i = 1"
    and "emit_char h field sz i =
      [0x5C, 0x78, hex_upper ! (unat (field ! i) div 16), hex_upper ! (unat (field ! i) mod 16)]"
proof -
  have d0: "drop i field ! 0 = field ! i"
    using assms(1,2) by simp
  have len: "sz - i \<le> length (drop i field)" using assms(2) by simp
  note cls = high_control_class [of "drop i field" "sz - i", unfolded d0, OF assms(3,4)]
  show "char_step h field sz i = 1"
    unfolding char_step_def Let_def utf8char_is_valid_bytes [OF len] by (simp add: cls)
  show "emit_char h field sz i =
      [0x5C, 0x78, hex_upper ! (unat (field ! i) div 16), hex_upper ! (unat (field ! i) mod 16)]"
    unfolding emit_char_def Let_def utf8char_is_valid_bytes [OF len]
    by (simp add: cls d0 hex_digits_of_byte high_nibble_mod)
qed

text \<open>
  C10, as the code has it. Let \<open>field\<close> hold at least \<open>sz\<close> bytes and \<open>str\<close> at least
  \<open>str_size\<close> bytes, and let \<open>fds_string2str\<close> return a count, with \<open>out\<close> the buffer after
  the call. For every position \<open>i\<close> where a new character starts with a byte from 0x80 to
  0x9F, the buffer holds the text of the characters before \<open>i\<close>, then backslash, \<open>x\<close> and
  the two uppercase hexadecimal digits of the byte, then the text of the input from
  position \<open>i + 1\<close> on, where the next character starts: the byte is escaped as a control
  character and takes one byte of input, and U+FFFD is not written for it.
\<close>

theorem high_control_byte_escaped:
  assumes "sz \<le> length field" and "str_size \<le> length str"
    and "fds_string2str h field sz str str_size = (Inr n, out)"
    and "i \<in> set (char_starts h field sz 0)"
    and "0x80 \<le> field ! i" and "field ! i \<le> 0x9F"
  shows "take (length (escaped_before h field sz i) + 4) out =
           escaped_before h field sz i @
           [0x5C, 0x78, hex_upper ! (unat (field ! i) div 16), hex_upper ! (unat (field ! i) mod 16)] \<and>
         char_starts h field sz i = i # char_starts h field sz (i + 1) \<and>
         take (length (escaped_from h field sz (i + 1)))
              (drop (length (escaped_before h field sz i) + 4) out) = escaped_from h field sz (i + 1)"
proof -
  let ?B = "escaped_before h field sz i"
  let ?X = "[0x5C, 0x78, hex_upper ! (unat (field ! i) div 16), hex_upper ! (unat (field ! i) mod 16)]"
  let ?R = "escaped_from h field sz (i + 1)"
  let ?E = "escaped_from h field sz 0"
  have lt: "i < sz" using assms(4) char_starts_bounds by blast
  note hc = high_control_char [OF lt assms(1,5,6), of h]
  have "escaped_from h field sz i = ?X @ ?R"
    using escaped_from_step [OF lt, of h field] unfolding hc by simp
  then have E: "?E = ?B @ ?X @ ?R"
    using escaped_split [OF assms(4)] by simp
  have len: "length ?E = length ?B + 4 + length ?R" unfolding E by simp
  have "take (length ?E) out = ?E"
    using assms(1-3) by (rule fds_string2str_text(2))
  then have "take (length ?B + 4 + length ?R) out = ?E" by (simp only: len)
  then have t: "take (length ?B + 4 + length ?R) out = ?B @ ?X @ ?R" by (simp only: E)
  have "take (length ?B + 4) out = take (length ?B + 4) (take (length ?B + 4 + length ?R) out)"
    by (simp add: min_def)
  also have "\<dots> = ?B @ ?X" unfolding t by simp
  finally have a: "take (length ?B + 4) out = ?B @ ?X" .
  have "take (length ?R) (drop (length ?B + 4) out) =
        drop (length ?B + 4) (take (length ?B + 4 + length ?R) out)"
    by (simp add: drop_take)
  also have "\<dots> = ?R" unfolding t by simp
  finally have b: "take (length ?R) (drop (length ?B + 4) out) = ?R" .
  have c: "char_starts h field sz i = i # char_starts h field sz (i + 1)"
    using lt hc(1) by (subst char_starts.simps) simp
  show ?thesis using a b c by (simp only: simp_thms)
qed

theorem high_control_byte_escaped_witness:
  "(3::nat) \<le> length [0x41, 0x85, 0x42 :: byte] \<and>
   (8::nat) \<le> length [0xAA, 0xAA, 0xAA, 0xAA, 0xAA, 0xAA, 0xAA, 0xAA :: byte] \<and>
   fds_string2str LittleEndian [0x41, 0x85, 0x42] 3
      [0xAA, 0xAA, 0xAA, 0xAA, 0xAA, 0xAA, 0xAA, 0xAA] 8
     = (Inr 6, [0x41, 0x5C, 0x78, 0x38, 0x35, 0x42, 0x00, 0xAA]) \<and>
   (1::nat) \<in> set (char_starts LittleEndian [0x41, 0x85, 0x42] 3 0) \<and>
   (0x80 :: byte) \<le> [0x41, 0x85, 0x42] ! 1 \<and> [0x41, 0x85, 0x42] ! 1 \<le> (0x9F :: byte) \<and>
   escaped_before LittleEndian [0x41, 0x85, 0x42] 3 1 = [0x41] \<and>
   escaped_from LittleEndian [0x41, 0x85, 0x42] 3 (1 + 1) = [0x42] \<and>
   take (length [0x41 :: byte] + 4) [0x41, 0x5C, 0x78, 0x38, 0x35, 0x42, 0x00, 0xAA :: byte]
     = [0x41] @ [0x5C, 0x78, 0x38, 0x35] \<and>
   char_starts LittleEndian [0x41, 0x85, 0x42] 3 1 = 1 # char_starts LittleEndian [0x41, 0x85, 0x42] 3 (1 + 1) \<and>
   take (length [0x42 :: byte]) (drop (length [0x41 :: byte] + 4)
     [0x41, 0x5C, 0x78, 0x38, 0x35, 0x42, 0x00, 0xAA :: byte]) = [0x42]"
proof -
  let ?f = "[0x41, 0x85, 0x42 :: byte]"
  let ?str = "[0xAA, 0xAA, 0xAA, 0xAA, 0xAA, 0xAA, 0xAA, 0xAA :: byte]"
  let ?out = "[0x41, 0x5C, 0x78, 0x38, 0x35, 0x42, 0x00, 0xAA :: byte]"
  have a: "(3::nat) \<le> length ?f" and b: "(8::nat) \<le> length ?str"
    and e: "(0x80 :: byte) \<le> ?f ! 1" and g: "?f ! 1 \<le> (0x9F :: byte)"
    by simp_all
  have c: "fds_string2str LittleEndian ?f 3 ?str 8 = (Inr 6, ?out)"
    unfolding fds_string2str_def
    by (simp add: string2str_loop.simps string2str_iter_def utf8char_is_valid_bytes
        utf8_seq_len_def utf8char_is_escapable_def utf8char_is_control_def Let_def memcpy_at_def
        hex_digit_def)
  have cs: "char_starts LittleEndian ?f 3 0 = [0, 1, 2]"
    by (simp add: char_starts.simps char_step_def utf8char_is_valid_bytes utf8_seq_len_def Let_def)
  have d: "(1::nat) \<in> set (char_starts LittleEndian ?f 3 0)" unfolding cs by simp
  have eb: "escaped_before LittleEndian ?f 3 1 = [0x41]"
    unfolding escaped_before_def cs
    by (simp add: emit_char_def utf8char_is_valid_bytes utf8_seq_len_def
        utf8char_is_escapable_def utf8char_is_control_def Let_def)
  have ef: "escaped_from LittleEndian ?f 3 (1 + 1) = [0x42]"
    unfolding escaped_from_def
    by (simp add: char_starts.simps char_step_def emit_char_def utf8char_is_valid_bytes
        utf8_seq_len_def utf8char_is_escapable_def utf8char_is_control_def Let_def)
  have hx: "hex_upper ! (unat (?f ! 1) div 16) = 0x38" "hex_upper ! (unat (?f ! 1) mod 16) = 0x35"
    by (simp_all add: hex_upper_def)
  note th = high_control_byte_escaped [OF a b c d e g, unfolded eb ef hx]
  show ?thesis using a b c d e g eb ef th by blast
qed

text \<open>
  C10, as stated, fails when the capacity is short: for the one byte \<open>85\<close> and a capacity
  of three bytes, \<open>fds_string2str\<close> returns \<open>FDS_ERR_BUFFER\<close> and writes nothing, although
  a character starts at position 0 with a byte from 0x80 to 0x9F.
\<close>

theorem short_capacity_counterexample:
  "(0::nat) \<in> set (char_starts LittleEndian [0x85] 1 0) \<and>
   (0x80 :: byte) \<le> [0x85] ! 0 \<and> [0x85] ! 0 \<le> (0x9F :: byte) \<and>
   fds_string2str LittleEndian [0x85] 1 [0xAA, 0xAA, 0xAA] 3
     = (Inl FDS_ERR_BUFFER, [0xAA, 0xAA, 0xAA])"
proof -
  have "char_starts LittleEndian [0x85] 1 0 = [0]"
    by (simp add: char_starts.simps char_step_def utf8char_is_valid_bytes utf8_seq_len_def Let_def)
  moreover have "fds_string2str LittleEndian [0x85] 1 [0xAA, 0xAA, 0xAA] 3
     = (Inl FDS_ERR_BUFFER, [0xAA, 0xAA, 0xAA])"
    unfolding fds_string2str_def
    by (simp add: string2str_loop.simps string2str_iter_def utf8char_is_valid_bytes
        utf8_seq_len_def utf8char_is_escapable_def utf8char_is_control_def Let_def memcpy_at_def)
  ultimately show ?thesis by simp
qed

end
